theory Spec2Isabelle
  imports Complex_Main
begin

section \<open>The timeline layout of the portfolio site\<close>

text \<open>
  This theory embeds the layout code of the \<^verbatim>\<open>Timeline\<close> component
  (date resolution, timeline bounds, column assignment, scale-aware pixel mapping)
  and proves the properties the specification states about it.

  Conventions of the embedding.
  \<^item> A JavaScript number is \<open>NaN\<close> or an exact rational \<open>Num r\<close>. Rounding to
    binary64 and the two infinities are outside the model; every month count the
    code computes is an integer far below \<open>2^53\<close>, where binary64 is exact.
  \<^item> A string is the list of its code units, a character being a code unit below
    256 (ASCII and Latin-1).
  \<^item> A \<^verbatim>\<open>Date\<close> is \<open>InvalidDate\<close> or its local calendar fields
    \<open>Date year month day ms\<close> (month \<open>0..11\<close>, \<open>ms\<close> the milliseconds within
    the day). The local time zone is taken to be UTC, without daylight saving.
  \<^item> \<^verbatim>\<open>new Date()\<close> reads the clock; the clock value is the explicit
    argument \<open>now\<close> of every function that reads it, one value per layout pass.
  \<^item> React state (\<^verbatim>\<open>pixelsPerMonth\<close>, \<^verbatim>\<open>zoomZones\<close>,
    \<^verbatim>\<open>isReversed\<close>) and memoised values are explicit arguments.
\<close>

subsection \<open>JavaScript numbers\<close>

datatype jsnum = NaN | Num rat

fun js_add :: "jsnum \<Rightarrow> jsnum \<Rightarrow> jsnum" where
  "js_add (Num a) (Num b) = Num (a + b)"
| "js_add _ _ = NaN"

fun js_sub :: "jsnum \<Rightarrow> jsnum \<Rightarrow> jsnum" where
  "js_sub (Num a) (Num b) = Num (a - b)"
| "js_sub _ _ = NaN"

fun js_mul :: "jsnum \<Rightarrow> jsnum \<Rightarrow> jsnum" where
  "js_mul (Num a) (Num b) = Num (a * b)"
| "js_mul _ _ = NaN"

text \<open>Comparisons involving \<open>NaN\<close> are false.\<close>

fun js_lt :: "jsnum \<Rightarrow> jsnum \<Rightarrow> bool" where
  "js_lt (Num a) (Num b) = (a < b)"
| "js_lt _ _ = False"

fun js_le :: "jsnum \<Rightarrow> jsnum \<Rightarrow> bool" where
  "js_le (Num a) (Num b) = (a \<le> b)"
| "js_le _ _ = False"

definition js_gt :: "jsnum \<Rightarrow> jsnum \<Rightarrow> bool" where
  "js_gt a b = js_lt b a"

definition js_ge :: "jsnum \<Rightarrow> jsnum \<Rightarrow> bool" where
  "js_ge a b = js_le b a"

text \<open>\<^verbatim>\<open>Math.max\<close> and \<^verbatim>\<open>Math.min\<close> of two arguments: \<open>NaN\<close> if either is.\<close>

fun Math_max :: "jsnum \<Rightarrow> jsnum \<Rightarrow> jsnum" where
  "Math_max (Num a) (Num b) = Num (max a b)"
| "Math_max _ _ = NaN"

fun Math_min :: "jsnum \<Rightarrow> jsnum \<Rightarrow> jsnum" where
  "Math_min (Num a) (Num b) = Num (min a b)"
| "Math_min _ _ = NaN"

text \<open>\<^verbatim>\<open>ToIntegerOrInfinity\<close> on a finite number: truncation towards zero.\<close>

definition js_trunc :: "rat \<Rightarrow> int" where
  "js_trunc r = (if 0 \<le> r then \<lfloor>r\<rfloor> else \<lceil>r\<rceil>)"

text \<open>
  The number of iterations of \<^verbatim>\<open>for (let i = 0; i < n; i++)\<close>: none when
  \<open>n\<close> is \<open>NaN\<close> or not positive, otherwise the least integer count reaching \<open>n\<close>.
\<close>

fun loopCount :: "jsnum \<Rightarrow> nat" where
  "loopCount NaN = 0"
| "loopCount (Num n) = nat \<lceil>n\<rceil>"

subsection \<open>Strings to numbers\<close>

text \<open>\<^verbatim>\<open>dateStr.split("-")\<close>: the fields between the dashes, at least one.\<close>

fun str_split :: "string \<Rightarrow> string list" where
  "str_split [] = [[]]"
| "str_split (c # cs) =
     (if c = CHR ''-'' then [] # str_split cs
      else (case str_split cs of
              w # ws \<Rightarrow> (c # w) # ws
            | [] \<Rightarrow> [[c]]))"

text \<open>
  \<^verbatim>\<open>Number(field)\<close>, the \<^verbatim>\<open>StringToNumber\<close> of ECMAScript. Its value is a
  finite number, one of the two infinities (the literal \<^verbatim>\<open>Infinity\<close>), or
  \<open>NaN\<close> when the string is no numeric literal.
\<close>

datatype strnum = StrNaN | StrInfinity | StrNegInfinity | StrNum rat

text \<open>
  White space and line terminators among the code units below 256: tab, line feed,
  vertical tab, form feed, carriage return, space, no-break space.
\<close>

definition is_white_space :: "char \<Rightarrow> bool" where
  "is_white_space c \<longleftrightarrow> (of_char c :: nat) \<in> {9, 10, 11, 12, 13, 32, 160}"

definition trim :: "string \<Rightarrow> string" where
  "trim s = rev (dropWhile is_white_space (rev (dropWhile is_white_space s)))"

definition is_digit :: "char \<Rightarrow> bool" where
  "is_digit c \<longleftrightarrow> 48 \<le> (of_char c :: nat) \<and> (of_char c :: nat) \<le> 57"

fun dec_value :: "nat \<Rightarrow> string \<Rightarrow> nat" where
  "dec_value acc [] = acc"
| "dec_value acc (c # cs) = dec_value (10 * acc + (of_char c - 48)) cs"

text \<open>
  The value of a character as a digit of a radix up to 36 (\<open>36\<close> for a character
  that is no digit), and the value of a string of digits of a radix.
\<close>

definition digit_of :: "char \<Rightarrow> nat" where
  "digit_of c =
     (let n = of_char c in
      if 48 \<le> n \<and> n \<le> 57 then n - 48
      else if 97 \<le> n \<and> n \<le> 122 then n - 87
      else if 65 \<le> n \<and> n \<le> 90 then n - 55
      else 36)"

fun radix_value :: "nat \<Rightarrow> nat \<Rightarrow> string \<Rightarrow> nat" where
  "radix_value radix acc [] = acc"
| "radix_value radix acc (c # cs) = radix_value radix (radix * acc + digit_of c) cs"

text \<open>
  \<^verbatim>\<open>NonDecimalIntegerLiteral\<close>: \<^verbatim>\<open>0x\<close>, \<^verbatim>\<open>0o\<close> or \<^verbatim>\<open>0b\<close> (either
  case) and at least one digit of the radix, without a sign.
\<close>

definition radix_of_prefix :: "char \<Rightarrow> nat" where
  "radix_of_prefix c =
     (if c = CHR ''x'' \<or> c = CHR ''X'' then 16
      else if c = CHR ''o'' \<or> c = CHR ''O'' then 8
      else if c = CHR ''b'' \<or> c = CHR ''B'' then 2
      else 0)"

definition nonDecimalLiteral :: "string \<Rightarrow> nat option" where
  "nonDecimalLiteral s =
     (case s of
        z # p # d # ds \<Rightarrow>
          (if z = CHR ''0'' \<and> radix_of_prefix p \<noteq> 0 \<and>
              list_all (\<lambda>c. digit_of c < radix_of_prefix p) (d # ds)
           then Some (radix_value (radix_of_prefix p) 0 (d # ds))
           else None)
      | _ \<Rightarrow> None)"

text \<open>
  \<^verbatim>\<open>ExponentPart\<close>, which may be absent: \<^verbatim>\<open>e\<close> or \<^verbatim>\<open>E\<close>, an optional
  sign, and at least one decimal digit.
\<close>

definition exponentPart :: "string \<Rightarrow> int option" where
  "exponentPart s =
     (case s of
        [] \<Rightarrow> Some 0
      | e # ds \<Rightarrow>
          (if e = CHR ''e'' \<or> e = CHR ''E'' then
             (case ds of
                [] \<Rightarrow> None
              | g # ds' \<Rightarrow>
                  (if g = CHR ''+'' \<and> ds' \<noteq> [] \<and> list_all is_digit ds'
                     then Some (int (dec_value 0 ds'))
                   else if g = CHR ''-'' \<and> ds' \<noteq> [] \<and> list_all is_digit ds'
                     then Some (- int (dec_value 0 ds'))
                   else if list_all is_digit ds then Some (int (dec_value 0 ds))
                   else None))
           else None))"

definition scale10 :: "rat \<Rightarrow> int \<Rightarrow> rat" where
  "scale10 r e = (if 0 \<le> e then r * 10 ^ nat e else r / 10 ^ nat (- e))"

text \<open>
  \<^verbatim>\<open>StrUnsignedDecimalLiteral\<close>: \<^verbatim>\<open>Infinity\<close>, or decimal digits with an
  optional fraction and an optional exponent, with a digit before or after the point.
\<close>

definition unsignedDecimalLiteral :: "string \<Rightarrow> strnum" where
  "unsignedDecimalLiteral s =
     (if s = ''Infinity'' then StrInfinity
      else
        (let ip = takeWhile is_digit s;
             r = dropWhile is_digit s;
             dot = (r \<noteq> [] \<and> hd r = CHR ''.'');
             fp = (if dot then takeWhile is_digit (tl r) else []);
             ex = (if dot then dropWhile is_digit (tl r) else r)
         in if ip = [] \<and> fp = [] then StrNaN
            else (case exponentPart ex of
                    None \<Rightarrow> StrNaN
                  | Some e \<Rightarrow>
                      StrNum (scale10 (of_nat (dec_value 0 ip) +
                                         of_nat (dec_value 0 fp) / 10 ^ length fp) e))))"

fun opposite :: "strnum \<Rightarrow> strnum" where
  "opposite (StrNum r) = StrNum (- r)"
| "opposite StrInfinity = StrNegInfinity"
| "opposite StrNegInfinity = StrInfinity"
| "opposite StrNaN = StrNaN"

text \<open>
  \<^verbatim>\<open>Number(s)\<close>: the string without the white space around it is empty
  (\<open>0\<close>), a literal with a radix prefix, or a decimal literal with an optional sign.
\<close>

definition Number_str :: "string \<Rightarrow> strnum" where
  "Number_str s =
     (let t = trim s in
      case t of
        [] \<Rightarrow> StrNum 0
      | c # cs \<Rightarrow>
          (case nonDecimalLiteral t of
             Some n \<Rightarrow> StrNum (of_nat n)
           | None \<Rightarrow>
               (if c = CHR ''+'' then unsignedDecimalLiteral cs
                else if c = CHR ''-'' then opposite (unsignedDecimalLiteral cs)
                else unsignedDecimalLiteral t)))"

text \<open>
  The arithmetic of the model has no infinities. A field enters it through
  \<^verbatim>\<open>new Date(year, month - 1)\<close> only, where an infinite \<^verbatim>\<open>year\<close> or
  \<^verbatim>\<open>month\<close> gives the invalid date that \<open>NaN\<close> gives (\<^verbatim>\<open>Infinity - 1\<close> is
  \<^verbatim>\<open>Infinity\<close>); an infinite field is therefore passed on as \<open>NaN\<close>.
\<close>

fun fieldNumber :: "strnum \<Rightarrow> jsnum" where
  "fieldNumber (StrNum r) = Num r"
| "fieldNumber _ = NaN"

subsection \<open>Dates\<close>

datatype jsdate = InvalidDate | Date int int int int

definition DaysInYear :: "int \<Rightarrow> int" where
  "DaysInYear y =
     (if y mod 4 \<noteq> 0 then 365
      else if y mod 100 \<noteq> 0 then 366
      else if y mod 400 \<noteq> 0 then 365
      else 366)"

text \<open>The day number of 1 January of year \<open>y\<close>, counted from 1 January 1970.\<close>

definition DayFromYear :: "int \<Rightarrow> int" where
  "DayFromYear y =
     365 * (y - 1970) + (y - 1969) div 4 - (y - 1901) div 100 + (y - 1601) div 400"

definition DaysInMonth :: "int \<Rightarrow> int \<Rightarrow> int" where
  "DaysInMonth y m =
     (if m = 1 then DaysInYear y - 337
      else if m = 3 \<or> m = 5 \<or> m = 8 \<or> m = 10 then 30
      else 31)"

text \<open>The days of year \<open>y\<close> before its month \<open>m\<close> (\<open>0..11\<close>).\<close>

definition DaysBeforeMonth :: "int \<Rightarrow> int \<Rightarrow> int" where
  "DaysBeforeMonth y m =
     (if m \<le> 0 then 0
      else if m = 1 then 31
      else (DaysInYear y - 365) +
        (if m = 2 then 59 else if m = 3 then 90 else if m = 4 then 120
         else if m = 5 then 151 else if m = 6 then 181 else if m = 7 then 212
         else if m = 8 then 243 else if m = 9 then 273 else if m = 10 then 304
         else 334))"

definition msPerDay :: int where
  "msPerDay = 86400000"

text \<open>The time value (milliseconds since the epoch) of calendar fields.\<close>

definition timeValue :: "int \<Rightarrow> int \<Rightarrow> int \<Rightarrow> int \<Rightarrow> int" where
  "timeValue y m d ms = (DayFromYear y + DaysBeforeMonth y m + (d - 1)) * msPerDay + ms"

text \<open>\<^verbatim>\<open>TimeClip\<close>: a time value beyond \<open>8.64e15\<close> ms is an invalid date.\<close>

definition TimeClip :: "int \<Rightarrow> int \<Rightarrow> int \<Rightarrow> int \<Rightarrow> jsdate" where
  "TimeClip y m d ms =
     (if \<bar>timeValue y m d ms\<bar> \<le> 8640000000000000 then Date y m d ms else InvalidDate)"

text \<open>
  \<^verbatim>\<open>MakeDate(MakeDay(year, month, dt), ms)\<close> followed by \<^verbatim>\<open>TimeClip\<close>:
  the month carries into the year, and a day of month beyond the end of the month
  carries into the next month. The callers pass a day of month between 1 and 31,
  so one carry is enough (no month is shorter than 28 days).
\<close>

definition MakeDate :: "int \<Rightarrow> int \<Rightarrow> int \<Rightarrow> int \<Rightarrow> jsdate" where
  "MakeDate year month dt ms =
     (let ym = year + month div 12;
          mn = month mod 12
      in if dt > DaysInMonth ym mn
         then (if mn = 11 then TimeClip (ym + 1) 0 (dt - DaysInMonth ym mn) ms
               else TimeClip ym (mn + 1) (dt - DaysInMonth ym mn) ms)
         else TimeClip ym mn dt ms)"

text \<open>
  \<^verbatim>\<open>new Date(year, month)\<close>: an invalid date when an argument is \<open>NaN\<close>;
  a year from 0 to 99 means 1900 + year; the day of month is 1 and the time 0:00.
\<close>

fun Date_new :: "jsnum \<Rightarrow> jsnum \<Rightarrow> jsdate" where
  "Date_new (Num year) (Num month) =
     (let yi = js_trunc year;
          yr = (if 0 \<le> yi \<and> yi \<le> 99 then 1900 + yi else yi)
      in MakeDate yr (js_trunc month) 1 0)"
| "Date_new _ _ = InvalidDate"

fun getTime :: "jsdate \<Rightarrow> jsnum" where
  "getTime InvalidDate = NaN"
| "getTime (Date y m d ms) = Num (of_int (timeValue y m d ms))"

fun getFullYear :: "jsdate \<Rightarrow> jsnum" where
  "getFullYear InvalidDate = NaN"
| "getFullYear (Date y m d ms) = Num (of_int y)"

fun getMonth :: "jsdate \<Rightarrow> jsnum" where
  "getMonth InvalidDate = NaN"
| "getMonth (Date y m d ms) = Num (of_int m)"

text \<open>\<^verbatim>\<open>date.setMonth(month)\<close>, returning the updated date.\<close>

fun setMonth :: "jsdate \<Rightarrow> jsnum \<Rightarrow> jsdate" where
  "setMonth (Date y m d ms) (Num month) = MakeDate y (js_trunc month) d ms"
| "setMonth _ _ = InvalidDate"

text \<open>
  A proper value of the clock: calendar fields in range and a time value that
  \<^verbatim>\<open>TimeClip\<close> accepts.
\<close>

fun properDate :: "jsdate \<Rightarrow> bool" where
  "properDate InvalidDate = False"
| "properDate (Date y m d ms) \<longleftrightarrow>
     0 \<le> m \<and> m \<le> 11 \<and> 1 \<le> d \<and> d \<le> DaysInMonth y m \<and> 0 \<le> ms \<and> ms < msPerDay \<and>
     \<bar>timeValue y m d ms\<bar> \<le> 8640000000000000"

subsection \<open>Date resolution\<close>

text \<open>
  The two lines shared by \<^verbatim>\<open>parseDate\<close> and \<^verbatim>\<open>parseDateForBounds\<close>:
  \<^verbatim>\<open>const [year, month] = dateStr.split("-").map(Number); return new Date(year, month - 1)\<close>.
  A missing second field leaves \<^verbatim>\<open>month\<close> undefined, and
  \<^verbatim>\<open>undefined - 1\<close> is \<open>NaN\<close>.
\<close>

definition dateOfFields :: "string \<Rightarrow> jsdate" where
  "dateOfFields dateStr =
     (case map Number_str (str_split dateStr) of
        year # month # _ \<Rightarrow> Date_new (fieldNumber year) (js_sub (fieldNumber month) (Num 1))
      | [year] \<Rightarrow> Date_new (fieldNumber year) NaN
      | [] \<Rightarrow> Date_new NaN NaN)"

definition parseDate :: "jsdate \<Rightarrow> string \<Rightarrow> jsdate" where
  "parseDate now dateStr =
     (if dateStr = ''present'' \<or> dateStr = ''future'' then now
      else dateOfFields dateStr)"

definition parseDateForBounds :: "jsdate \<Rightarrow> string \<Rightarrow> jsdate" where
  "parseDateForBounds now dateStr =
     (if dateStr = ''present'' then now
      else if dateStr = ''future'' then setMonth now (js_add (getMonth now) (Num 6))
      else dateOfFields dateStr)"

definition isFutureDate :: "jsdate \<Rightarrow> string \<Rightarrow> bool" where
  "isFutureDate now dateStr =
     (if dateStr = ''present'' then False
      else if dateStr = ''future'' then True
      else js_gt (getTime (parseDateForBounds now dateStr)) (getTime now))"

text \<open>
  \<^verbatim>\<open>(b.getFullYear() - a.getFullYear()) * 12 + (b.getMonth() - a.getMonth())\<close>,
  the expression the code writes out wherever it counts months from \<open>a\<close> to \<open>b\<close>.
\<close>

definition monthsBetween :: "jsdate \<Rightarrow> jsdate \<Rightarrow> jsnum" where
  "monthsBetween a b =
     js_add (js_mul (js_sub (getFullYear b) (getFullYear a)) (Num 12))
            (js_sub (getMonth b) (getMonth a))"

definition getMonthsDuration :: "jsdate \<Rightarrow> string \<Rightarrow> string \<Rightarrow> jsnum" where
  "getMonthsDuration now startStr endStr =
     (let start = parseDate now startStr;
          endB = parseDateForBounds now endStr;
          months = monthsBetween start endB
      in Math_max (Num 1) months)"

subsection \<open>Entries, zoom zones and layouts\<close>

record ResumeItem =
  item_id :: string
  category :: string
  title :: string
  organization :: string
  location :: string
  startDate :: string
  endDate :: string
  description :: string
  highlights :: "string list"

definition DEFAULT_PIXELS_PER_MONTH :: rat where
  "DEFAULT_PIXELS_PER_MONTH = 16"

definition MIN_ITEM_HEIGHT :: rat where
  "MIN_ITEM_HEIGHT = 60"

text \<open>
  The zone years come from \<^verbatim>\<open>parseInt(...) || 2020\<close>, which is never \<open>NaN\<close>;
  the multiplier is one of the four options of the select box.
\<close>

record ZoomZone =
  startYear :: int
  endYear :: int
  multiplier :: rat

text \<open>
  \<^verbatim>\<open>column\<close> and \<^verbatim>\<open>localColumnCount\<close> are an array length and a set
  size; \<^verbatim>\<open>localColumnOffset\<close> is a result of \<^verbatim>\<open>indexOf\<close> and can be \<open>-1\<close>.
\<close>

record ItemLayout =
  column :: nat
  localColumnCount :: nat
  localColumnOffset :: int

text \<open>An element of \<^verbatim>\<open>itemBounds\<close>: \<^verbatim>\<open>{ id, start, end, column }\<close>.\<close>

record ItemBounds =
  b_id :: string
  b_start :: jsnum
  b_end :: jsnum
  b_column :: nat

subsection \<open>Sorting\<close>

text \<open>
  \<^verbatim>\<open>Array.prototype.sort\<close> with a comparator. ECMAScript requires the sort to be
  stable and reads a \<open>NaN\<close> result of the comparator as \<open>0\<close>. With a consistent
  comparator every stable sort returns the same array, here computed by insertion;
  with an inconsistent one (some start date invalid) the order is implementation
  defined, and the model fixes the order that insertion gives.
\<close>

fun insertBy :: "('a \<Rightarrow> 'a \<Rightarrow> jsnum) \<Rightarrow> 'a \<Rightarrow> 'a list \<Rightarrow> 'a list" where
  "insertBy cmp x [] = [x]"
| "insertBy cmp x (y # ys) =
     (if js_gt (cmp x y) (Num 0) then y # insertBy cmp x ys else x # y # ys)"

fun Array_sort :: "('a \<Rightarrow> 'a \<Rightarrow> jsnum) \<Rightarrow> 'a list \<Rightarrow> 'a list" where
  "Array_sort cmp [] = []"
| "Array_sort cmp (x # xs) = insertBy cmp x (Array_sort cmp xs)"

text \<open>\<^verbatim>\<open>(a, b) => parseDate(a.startDate).getTime() - parseDate(b.startDate).getTime()\<close>\<close>

definition byStartDate :: "jsdate \<Rightarrow> ResumeItem \<Rightarrow> ResumeItem \<Rightarrow> jsnum" where
  "byStartDate now a b =
     js_sub (getTime (parseDate now (startDate a))) (getTime (parseDate now (startDate b)))"

subsection \<open>Column assignment\<close>

text \<open>
  The inner loop of the first pass: the first column, counted from \<open>col\<close>, whose
  visual end is \<open>\<le>\<close> the start of the item, or \<open>-1\<close>.
\<close>

fun firstAvailable :: "jsnum list \<Rightarrow> jsnum \<Rightarrow> nat \<Rightarrow> int" where
  "firstAvailable [] itemStartMonths col = -1"
| "firstAvailable (e # es) itemStartMonths col =
     (if js_le e itemStartMonths then int col
      else firstAvailable es itemStartMonths (Suc col))"

text \<open>\<^verbatim>\<open>itemStartMonths\<close> and \<^verbatim>\<open>itemVisualEnd\<close> of the loop body.\<close>

definition visualStart :: "jsdate \<Rightarrow> jsdate \<Rightarrow> ResumeItem \<Rightarrow> jsnum" where
  "visualStart now minDate item = monthsBetween minDate (parseDate now (startDate item))"

definition visualEnd :: "jsdate \<Rightarrow> jsdate \<Rightarrow> jsnum \<Rightarrow> ResumeItem \<Rightarrow> jsnum" where
  "visualEnd now minDate minVisualMonths item =
     (let actualDuration = getMonthsDuration now (startDate item) (endDate item);
          visualDuration = Math_max minVisualMonths actualDuration
      in js_add (visualStart now minDate item) visualDuration)"

text \<open>One iteration of the first pass, on the state \<^verbatim>\<open>(columnVisualEnds, itemBounds)\<close>.\<close>

definition placeItem ::
  "jsdate \<Rightarrow> jsdate \<Rightarrow> jsnum \<Rightarrow> ResumeItem \<Rightarrow> jsnum list \<times> ItemBounds list
     \<Rightarrow> jsnum list \<times> ItemBounds list" where
  "placeItem now minDate minVisualMonths item st =
     (let columnVisualEnds = fst st;
          itemBounds = snd st;
          itemStartMonths = visualStart now minDate item;
          itemVisualEnd = visualEnd now minDate minVisualMonths item;
          found = firstAvailable columnVisualEnds itemStartMonths 0;
          assignedColumn = (if found = -1 then length columnVisualEnds else nat found);
          columnVisualEnds1 =
            (if found = -1 then columnVisualEnds @ [Num 0] else columnVisualEnds)
      in (columnVisualEnds1[assignedColumn := itemVisualEnd],
          itemBounds @
            [\<lparr>b_id = item_id item, b_start = itemStartMonths, b_end = itemVisualEnd,
              b_column = assignedColumn\<rparr>]))"

definition firstPass ::
  "jsdate \<Rightarrow> jsdate \<Rightarrow> jsnum \<Rightarrow> ResumeItem list \<Rightarrow> jsnum list \<times> ItemBounds list" where
  "firstPass now minDate minVisualMonths sortedItems =
     fold (placeItem now minDate minVisualMonths) sortedItems ([], [])"

text \<open>\<^verbatim>\<open>Array.prototype.indexOf\<close>: the first position of \<open>x\<close>, or \<open>-1\<close>.\<close>

fun indexOf :: "'a list \<Rightarrow> 'a \<Rightarrow> int" where
  "indexOf [] x = -1"
| "indexOf (y # ys) x =
     (if y = x then 0
      else (let i = indexOf ys x in if i = -1 then -1 else i + 1))"

text \<open>The strict overlap test of the second pass.\<close>

definition overlapsBounds :: "ItemBounds \<Rightarrow> ItemBounds \<Rightarrow> bool" where
  "overlapsBounds item other \<longleftrightarrow>
     js_lt (b_start other) (b_end item) \<and> js_gt (b_end other) (b_start item)"

text \<open>
  The body of the second pass. The set of used columns is kept as a list without
  duplicates; only its size and its sorted form are read.
\<close>

definition layoutOf :: "ItemBounds list \<Rightarrow> ItemBounds \<Rightarrow> ItemLayout" where
  "layoutOf itemBounds item =
     (let overlappingItems = filter (overlapsBounds item) itemBounds;
          usedColumns = remdups (map b_column overlappingItems);
          localColumnCount = length usedColumns;
          sortedColumns = sort usedColumns;
          localColumnOffset = indexOf sortedColumns (b_column item)
      in \<lparr>column = b_column item, localColumnCount = localColumnCount,
           localColumnOffset = localColumnOffset\<rparr>)"

definition secondPass :: "ItemBounds list \<Rightarrow> (string \<rightharpoonup> ItemLayout)" where
  "secondPass itemBounds =
     fold (\<lambda>item layouts. layouts(b_id item \<mapsto> layoutOf itemBounds item)) itemBounds Map.empty"

definition assignColumnsWithLayout ::
  "jsdate \<Rightarrow> ResumeItem list \<Rightarrow> jsdate \<Rightarrow> jsnum \<Rightarrow> (string \<rightharpoonup> ItemLayout)" where
  "assignColumnsWithLayout now items minDate minVisualMonths =
     (let sortedItems = Array_sort (byStartDate now) items;
          itemBounds = snd (firstPass now minDate minVisualMonths sortedItems)
      in secondPass itemBounds)"

subsection \<open>Timeline bounds\<close>

text \<open>
  \<^verbatim>\<open>new Date(Math.min(...allDates.map((d) => d.getTime())))\<close>: the date of the
  least time value, invalid when a date of the list is (\<^verbatim>\<open>Math.min\<close> is
  \<open>NaN\<close> then) or when the list is empty (\<^verbatim>\<open>new Date(Infinity)\<close>).
  Likewise for \<^verbatim>\<open>Math.max\<close>.
\<close>

fun earlier :: "jsdate \<Rightarrow> jsdate \<Rightarrow> jsdate" where
  "earlier (Date y m d ms) (Date y' m' d' ms') =
     (if timeValue y' m' d' ms' < timeValue y m d ms then Date y' m' d' ms' else Date y m d ms)"
| "earlier _ _ = InvalidDate"

fun later :: "jsdate \<Rightarrow> jsdate \<Rightarrow> jsdate" where
  "later (Date y m d ms) (Date y' m' d' ms') =
     (if timeValue y m d ms < timeValue y' m' d' ms' then Date y' m' d' ms' else Date y m d ms)"
| "later _ _ = InvalidDate"

fun Date_of_min :: "jsdate list \<Rightarrow> jsdate" where
  "Date_of_min [] = InvalidDate"
| "Date_of_min (d # ds) = fold (\<lambda>x acc. earlier acc x) ds d"

fun Date_of_max :: "jsdate list \<Rightarrow> jsdate" where
  "Date_of_max [] = InvalidDate"
| "Date_of_max (d # ds) = fold (\<lambda>x acc. later acc x) ds d"

record TimelineBounds =
  tb_minDate :: jsdate
  tb_maxDate :: jsdate
  tb_totalMonths :: jsnum

definition timelineBounds :: "jsdate \<Rightarrow> ResumeItem list \<Rightarrow> TimelineBounds" where
  "timelineBounds now filteredItems =
     (if length filteredItems = 0
      then \<lparr>tb_minDate = now, tb_maxDate = now, tb_totalMonths = Num 0\<rparr>
      else
        (let startDates = map (\<lambda>item. parseDate now (startDate item)) filteredItems;
             endDates = map (\<lambda>item. parseDateForBounds now (endDate item)) filteredItems;
             allDates = startDates @ endDates;
             minD = Date_of_min allDates;
             maxD = Date_of_max allDates;
             months = js_add (monthsBetween minD maxD) (Num 1)
         in \<lparr>tb_minDate = minD, tb_maxDate = maxD, tb_totalMonths = months\<rparr>))"

subsection \<open>Scale-aware pixel mapping\<close>

text \<open>The loop over \<^verbatim>\<open>zoomZones\<close>: the first zone holding the year wins.\<close>

fun zoneScale :: "rat \<Rightarrow> jsnum \<Rightarrow> ZoomZone list \<Rightarrow> rat" where
  "zoneScale pixelsPerMonth year [] = pixelsPerMonth"
| "zoneScale pixelsPerMonth year (zone # zones) =
     (if js_ge year (Num (of_int (startYear zone))) \<and> js_le year (Num (of_int (endYear zone)))
      then pixelsPerMonth * multiplier zone
      else zoneScale pixelsPerMonth year zones)"

text \<open>
  \<^verbatim>\<open>new Date(minDate.getFullYear(), minDate.getMonth() + monthIndex, 1)\<close> is
  \<open>Date_new\<close>, whose day of month is 1.
\<close>

definition getScaleForMonth :: "jsdate \<Rightarrow> rat \<Rightarrow> ZoomZone list \<Rightarrow> jsnum \<Rightarrow> rat" where
  "getScaleForMonth minDate pixelsPerMonth zoomZones monthIndex =
     (let date = Date_new (getFullYear minDate) (js_add (getMonth minDate) monthIndex);
          year = getFullYear date
      in zoneScale pixelsPerMonth year zoomZones)"

text \<open>
  \<^verbatim>\<open>for (let i = 0; i < monthIndex; i++) offset += getScaleForMonth(i)\<close>; the
  sum of the scales of the months \<open>0, \<dots>, loopCount monthIndex - 1\<close>.
\<close>

definition getPixelOffsetForMonth :: "jsdate \<Rightarrow> rat \<Rightarrow> ZoomZone list \<Rightarrow> jsnum \<Rightarrow> rat" where
  "getPixelOffsetForMonth minDate pixelsPerMonth zoomZones monthIndex =
     sum_list (map (\<lambda>i. getScaleForMonth minDate pixelsPerMonth zoomZones (Num (of_nat i)))
                   [0..<loopCount monthIndex])"

definition totalHeight :: "jsdate \<Rightarrow> rat \<Rightarrow> ZoomZone list \<Rightarrow> jsnum \<Rightarrow> rat" where
  "totalHeight minDate pixelsPerMonth zoomZones totalMonths =
     sum_list (map (\<lambda>i. getScaleForMonth minDate pixelsPerMonth zoomZones (Num (of_nat i)))
                   [0..<loopCount totalMonths])"

text \<open>The pair \<^verbatim>\<open>{ top, height }\<close>, in pixels.\<close>

record ItemStyle =
  top_px :: rat
  height :: rat

definition getItemStyle ::
  "jsdate \<Rightarrow> jsdate \<Rightarrow> rat \<Rightarrow> ZoomZone list \<Rightarrow> bool \<Rightarrow> rat \<Rightarrow> ResumeItem \<Rightarrow> ItemStyle" where
  "getItemStyle now minDate pixelsPerMonth zoomZones isReversed totalH item =
     (let start = parseDate now (startDate item);
          monthsFromStart = monthsBetween minDate start;
          duration = getMonthsDuration now (startDate item) (endDate item);
          h = sum_list (map (\<lambda>i. getScaleForMonth minDate pixelsPerMonth zoomZones
                                     (js_add monthsFromStart (Num (of_nat i))))
                            [0..<loopCount duration]);
          h' = max MIN_ITEM_HEIGHT h;
          topOffset = getPixelOffsetForMonth minDate pixelsPerMonth zoomZones monthsFromStart;
          t = (if isReversed then totalH - topOffset - h' else topOffset)
      in \<lparr>top_px = t, height = h'\<rparr>)"

subsection \<open>The layout pass of the component\<close>

text \<open>
  \<^verbatim>\<open>minVisualMonths = MIN_ITEM_HEIGHT / pixelsPerMonth\<close>. The buttons keep
  \<^verbatim>\<open>pixelsPerMonth\<close> between 2 and 24; the quotient is meant for a scale
  that is not 0 (JavaScript would give \<^verbatim>\<open>Infinity\<close> there).
\<close>

definition minVisualMonths :: "rat \<Rightarrow> jsnum" where
  "minVisualMonths pixelsPerMonth = Num (MIN_ITEM_HEIGHT / pixelsPerMonth)"

definition itemLayouts :: "jsdate \<Rightarrow> ResumeItem list \<Rightarrow> rat \<Rightarrow> (string \<rightharpoonup> ItemLayout)" where
  "itemLayouts now filteredItems pixelsPerMonth =
     assignColumnsWithLayout now filteredItems
       (tb_minDate (timelineBounds now filteredItems)) (minVisualMonths pixelsPerMonth)"

text \<open>The style of an item as the component renders it.\<close>

definition itemStyle ::
  "jsdate \<Rightarrow> ResumeItem list \<Rightarrow> rat \<Rightarrow> ZoomZone list \<Rightarrow> bool \<Rightarrow> ResumeItem \<Rightarrow> ItemStyle" where
  "itemStyle now filteredItems pixelsPerMonth zoomZones isReversed item =
     (let tb = timelineBounds now filteredItems;
          totalH = totalHeight (tb_minDate tb) pixelsPerMonth zoomZones (tb_totalMonths tb)
      in getItemStyle now (tb_minDate tb) pixelsPerMonth zoomZones isReversed totalH item)"

text \<open>An entry with the three fields the layout reads; the display fields are empty.\<close>

definition entry :: "string \<Rightarrow> string \<Rightarrow> string \<Rightarrow> ResumeItem" where
  "entry i s e =
     \<lparr>item_id = i, category = ''project'', title = [], organization = [], location = [],
      startDate = s, endDate = e, description = [], highlights = []\<rparr>"

subsection \<open>Notions used in the proofs\<close>

text \<open>The column the first pass gives an item that starts at \<open>s\<close>.\<close>

definition chosenColumn :: "jsnum list \<Rightarrow> jsnum \<Rightarrow> nat" where
  "chosenColumn ends s =
     (if firstAvailable ends s 0 = -1 then length ends else nat (firstAvailable ends s 0))"

text \<open>
  The invariant of the first pass: every placed item lies in an existing column and
  ends no later than the visual end recorded for its column, and of two items of one
  column the earlier placed one ends before the later one starts.
\<close>

definition sameColumnOrdered :: "ItemBounds \<Rightarrow> ItemBounds \<Rightarrow> bool" where
  "sameColumnOrdered a b \<longleftrightarrow> (b_column a = b_column b \<longrightarrow> js_le (b_end a) (b_start b))"

definition packed :: "jsnum list \<times> ItemBounds list \<Rightarrow> bool" where
  "packed st \<longleftrightarrow>
     (\<forall>b \<in> set (snd st). b_column b < length (fst st) \<and>
        (\<forall>w. fst st ! b_column b = Num w \<longrightarrow> (\<exists>e. b_end b = Num e \<and> e \<le> w))) \<and>
     sorted_wrt sameColumnOrdered (snd st)"

text \<open>What the first pass copies from an entry into its element of \<^verbatim>\<open>itemBounds\<close>.\<close>

definition boundsKey :: "ItemBounds \<Rightarrow> string \<times> jsnum \<times> jsnum" where
  "boundsKey b = (b_id b, b_start b, b_end b)"

definition itemKey :: "jsdate \<Rightarrow> jsdate \<Rightarrow> jsnum \<Rightarrow> ResumeItem \<Rightarrow> string \<times> jsnum \<times> jsnum" where
  "itemKey now minDate mvm item =
     (item_id item, visualStart now minDate item, visualEnd now minDate mvm item)"

text \<open>The array \<^verbatim>\<open>itemBounds\<close> at the end of the first pass.\<close>

definition itemBoundsOf :: "jsdate \<Rightarrow> ResumeItem list \<Rightarrow> jsdate \<Rightarrow> jsnum \<Rightarrow> ItemBounds list" where
  "itemBoundsOf now items minDate mvm =
     snd (firstPass now minDate mvm (Array_sort (byStartDate now) items))"

text \<open>
  The day number of the first day of the month with index \<open>k = 12 * year + month\<close>.
\<close>

definition monthStart :: "int \<Rightarrow> int" where
  "monthStart k = DayFromYear (k div 12) + DaysBeforeMonth (k div 12) (k mod 12)"

text \<open>
  The index \<open>12 * year + month\<close> of the month of a date, and its time value.
\<close>

fun monthNumber :: "jsdate \<Rightarrow> int" where
  "monthNumber InvalidDate = 0"
| "monthNumber (Date y m d ms) = 12 * y + m"

fun timeOf :: "jsdate \<Rightarrow> int" where
  "timeOf InvalidDate = 0"
| "timeOf (Date y m d ms) = timeValue y m d ms"

text \<open>
  The array \<^verbatim>\<open>allDates\<close> of the component.
\<close>

definition allDates :: "jsdate \<Rightarrow> ResumeItem list \<Rightarrow> jsdate list" where
  "allDates now items =
     map (\<lambda>item. parseDate now (startDate item)) items @
     map (\<lambda>item. parseDateForBounds now (endDate item)) items"

text \<open>
  The sort key of an entry: the time value of its resolved start date.
\<close>

definition startTime :: "jsdate \<Rightarrow> ResumeItem \<Rightarrow> int" where
  "startTime now e = timeOf (parseDate now (startDate e))"

text \<open>
  The strict overlap test of the second pass, on two entries: the visual interval of
  \<open>other\<close> intersects that of \<open>item\<close>.
\<close>

definition overlaps :: "jsdate \<Rightarrow> jsdate \<Rightarrow> jsnum \<Rightarrow> ResumeItem \<Rightarrow> ResumeItem \<Rightarrow> bool" where
  "overlaps now minDate mvm item other \<longleftrightarrow>
     js_lt (visualStart now minDate other) (visualEnd now minDate mvm item) \<and>
     js_gt (visualEnd now minDate mvm other) (visualStart now minDate item)"

text \<open>
  A second invariant of the first pass, for numeric intervals in ascending order of
  start: the visual end of every column is the end of an item placed in it, and for
  every placed item each column to its left holds an item that overlaps it.
\<close>

definition stacked :: "jsnum list \<times> ItemBounds list \<Rightarrow> bool" where
  "stacked st \<longleftrightarrow>
     (\<forall>c < length (fst st). \<exists>b \<in> set (snd st). b_column b = c \<and> b_end b = fst st ! c) \<and>
     (\<forall>b \<in> set (snd st). \<forall>c < b_column b.
        \<exists>b' \<in> set (snd st). b_column b' = c \<and> overlapsBounds b b')"

text \<open>An element of \<^verbatim>\<open>itemBounds\<close> whose interval is numeric and not empty.\<close>

definition numericBounds :: "ItemBounds \<Rightarrow> bool" where
  "numericBounds b \<longleftrightarrow> (\<exists>s e. b_start b = Num s \<and> b_end b = Num e \<and> s < e)"

subsection \<open>Notions of the specification\<close>

text \<open>
  The column rule in the words of the specification: scan the columns in ascending
  index and take the first one whose watermark is \<open>\<le>\<close> the visual start of the
  entry; when no column qualifies, the column is a new one at the next index.
\<close>

definition firstFitColumn :: "jsnum list \<Rightarrow> jsnum \<Rightarrow> nat" where
  "firstFitColumn watermarks start =
     (case find (\<lambda>c. js_le (watermarks ! c) start) [0..<length watermarks] of
        Some c \<Rightarrow> c
      | None \<Rightarrow> length watermarks)"

text \<open>
  The column assignment in the words of the specification. The entries, each given
  by its id, visual start and visual end, are taken in order; each goes to its
  first-fit column, and the watermark of that column becomes its visual end.
\<close>

fun firstFitAssignment ::
  "(string \<times> jsnum \<times> jsnum) list \<Rightarrow> jsnum list \<Rightarrow> (string \<times> nat) list" where
  "firstFitAssignment [] watermarks = []"
| "firstFitAssignment ((i, s, e) # entries) watermarks =
     (let c = firstFitColumn watermarks s
      in (i, c) # firstFitAssignment entries
           (if c < length watermarks then watermarks[c := e] else watermarks @ [e]))"

text \<open>
  The columns the specification gives the entries of a list: first fit, from no
  columns, over the entries sorted by the time of their start date, ascending, by
  a stable sort (\<open>sort_key\<close> keeps entries of equal key in their input order).
\<close>

definition firstFitColumns ::
  "jsdate \<Rightarrow> ResumeItem list \<Rightarrow> jsdate \<Rightarrow> jsnum \<Rightarrow> (string \<rightharpoonup> nat)" where
  "firstFitColumns now items minDate mvm =
     map_of (firstFitAssignment
               (map (itemKey now minDate mvm) (sort_key (startTime now) items)) [])"

text \<open>
  An overlap cluster, as the glossary of the specification defines it: a maximal set
  of entries of the list that are connected by overlap. Every two members are
  linked by a chain of overlaps (a single entry, by the overlap with itself), and
  every entry of the list that overlaps a member is a member.
\<close>

definition overlapCluster ::
  "jsdate \<Rightarrow> jsdate \<Rightarrow> jsnum \<Rightarrow> ResumeItem list \<Rightarrow> ResumeItem set \<Rightarrow> bool" where
  "overlapCluster now minDate mvm items S \<longleftrightarrow>
     S \<noteq> {} \<and> S \<subseteq> set items \<and>
     (\<forall>a \<in> S. \<forall>b \<in> S.
        (a, b) \<in> {(x, y). x \<in> set items \<and> y \<in> set items \<and> overlaps now minDate mvm x y}\<^sup>+) \<and>
     (\<forall>a \<in> S. \<forall>b \<in> set items. overlaps now minDate mvm a b \<longrightarrow> b \<in> S)"

subsection \<open>Example entries\<close>

text \<open>Three entries of 2023; the first and the third do not overlap.\<close>

definition exA :: ResumeItem where
  "exA = entry ''a'' ''2023-01'' ''2023-06''"

definition exB :: ResumeItem where
  "exB = entry ''b'' ''2023-03'' ''2023-09''"

definition exC :: ResumeItem where
  "exC = entry ''c'' ''2023-07'' ''2023-12''"

text \<open>An entry whose start date is no date, and an entry that is still running.\<close>

definition exBad :: ResumeItem where
  "exBad = entry ''x'' ''garbage'' ''present''"

definition exPresent :: ResumeItem where
  "exPresent = entry ''a'' ''2023-01'' ''present''"

text \<open>
  An entry with a projected end.
\<close>

definition exFuture :: ResumeItem where
  "exFuture = entry ''f'' ''2023-01'' ''future''"

section \<open>Properties\<close>

subsection \<open>Pixel geometry\<close>

lemma zoneScale_unit:
  "(\<forall>z \<in> set zones. multiplier z = 1) \<Longrightarrow> zoneScale ppm year zones = ppm"
  by (induction zones) auto

text \<open>
  C9. The height the layout gives an entry is at least \<open>MIN_ITEM_HEIGHT\<close>, for
  every entry, every scale and every list of zoom zones: the sum over the months
  of the entry passes through \<^verbatim>\<open>Math.max(MIN_ITEM_HEIGHT, height)\<close>. This holds
  on \<open>getItemStyle\<close> with any arguments and on the style the component renders.
\<close>

theorem getItemStyle_height_floor:
  "MIN_ITEM_HEIGHT \<le>
     height (getItemStyle now minDate pixelsPerMonth zoomZones isReversed totalH item)
   \<and> MIN_ITEM_HEIGHT \<le>
     height (itemStyle now filteredItems pixelsPerMonth zoomZones isReversed item)"
  by (simp add: getItemStyle_def itemStyle_def Let_def)

text \<open>
  C6. The reversed axis mirrors the top of an entry, \<open>top' = totalHeight - top - height\<close>,
  and leaves its height alone; mirroring \<open>top'\<close> again gives the top of the entry on
  the axis that is not reversed, for every total height and every entry.
\<close>

theorem reversed_top_round_trip:
  "top_px (getItemStyle now minDate ppm zones True totalH item) =
     totalH - top_px (getItemStyle now minDate ppm zones False totalH item)
            - height (getItemStyle now minDate ppm zones False totalH item)
   \<and> height (getItemStyle now minDate ppm zones True totalH item) =
     height (getItemStyle now minDate ppm zones False totalH item)
   \<and> totalH - top_px (getItemStyle now minDate ppm zones True totalH item)
            - height (getItemStyle now minDate ppm zones True totalH item) =
     top_px (getItemStyle now minDate ppm zones False totalH item)"
  by (simp add: getItemStyle_def Let_def)

text \<open>
  C7. When every zoom zone of the list has multiplier 1, the scale of every month
  is the scale without zoom zones, and so are every pixel offset and the total
  height.
\<close>

theorem unit_zoom_zones_are_no_zones:
  assumes "\<forall>z \<in> set zoomZones. multiplier z = 1"
  shows "getScaleForMonth minDate ppm zoomZones monthIndex =
           getScaleForMonth minDate ppm [] monthIndex
    \<and> getPixelOffsetForMonth minDate ppm zoomZones monthIndex =
           getPixelOffsetForMonth minDate ppm [] monthIndex
    \<and> totalHeight minDate ppm zoomZones totalMonths = totalHeight minDate ppm [] totalMonths"
  using assms
  by (simp add: getScaleForMonth_def getPixelOffsetForMonth_def totalHeight_def Let_def
      zoneScale_unit)

theorem unit_zoom_zones_are_no_zones_witness:
  "list_all (\<lambda>z. multiplier z = 1) [\<lparr>startYear = 2024, endYear = 2025, multiplier = 1\<rparr>]
   \<and> getScaleForMonth (Date 2023 0 1 0) 16
         [\<lparr>startYear = 2024, endYear = 2025, multiplier = 1\<rparr>] (Num 14) = 16
   \<and> totalHeight (Date 2023 0 1 0) 16
         [\<lparr>startYear = 2024, endYear = 2025, multiplier = 1\<rparr>] (Num 24) =
       totalHeight (Date 2023 0 1 0) 16 [] (Num 24)"
  using unit_zoom_zones_are_no_zones
    [of "[\<lparr>startYear = 2024, endYear = 2025, multiplier = 1\<rparr>]" "Date 2023 0 1 0" 16
        "Num 14" "Num 24"]
  by (simp add: getScaleForMonth_def)

subsection \<open>Evaluating dates\<close>

lemmas Number_defs = Number_str_def trim_def is_white_space_def nonDecimalLiteral_def
  radix_of_prefix_def digit_of_def unsignedDecimalLiteral_def exponentPart_def is_digit_def
  scale10_def Let_def

text \<open>
  Fields as \<^verbatim>\<open>Number\<close> reads them: digits, the empty field, white space around
  a literal, a sign, an exponent, a fraction, a radix prefix, and strings that are
  no numeric literal.
\<close>

lemma Number_examples:
  "Number_str ''2023'' = StrNum 2023"
  "Number_str ''01'' = StrNum 1"
  "Number_str [] = StrNum 0"
  "Number_str ''01 '' = StrNum 1"
  "Number_str '' 7'' = StrNum 7"
  "Number_str ''+7'' = StrNum 7"
  "Number_str ''1e1'' = StrNum 10"
  "Number_str ''2.5'' = StrNum (5 / 2)"
  "Number_str ''.5'' = StrNum (1 / 2)"
  "Number_str ''0x7E7'' = StrNum 2023"
  "Number_str ''0b101'' = StrNum 5"
  "Number_str ''Infinity'' = StrInfinity"
  "Number_str ''garbage'' = StrNaN"
  "Number_str ''.'' = StrNaN"
  "Number_str ''1e'' = StrNaN"
  "Number_str ''0x'' = StrNaN"
  "Number_str ''1_0'' = StrNaN"
  "Number_str ''+0x10'' = StrNaN"
  by (simp_all add: Number_defs)

lemma js_trunc_of_int: "js_trunc (of_int n) = n"
  by (simp add: js_trunc_def)

lemma Date_new_ints:
  "Date_new (Num (of_int y)) (Num (of_int m)) =
     MakeDate (if 0 \<le> y \<and> y \<le> 99 then 1900 + y else y) m 1 0"
  by (simp add: js_trunc_of_int Let_def)

lemmas calendar_defs = timeValue_def DayFromYear_def DaysBeforeMonth_def DaysInMonth_def
  DaysInYear_def msPerDay_def

lemma DaysInMonth_ge: "28 \<le> DaysInMonth y m"
  by (simp add: DaysInMonth_def DaysInYear_def)

lemma MakeDate_in_range:
  assumes "0 \<le> m" and "m \<le> 11" and "d \<le> DaysInMonth y m"
  shows "MakeDate y m d ms = TimeClip y m d ms"
proof -
  from assms(1,2) have "m div 12 = 0" "m mod 12 = m" by simp_all
  with assms(3) show ?thesis by (simp add: MakeDate_def)
qed

lemma dateOfFields_year_month:
  assumes "map Number_str (str_split s) = [StrNum (of_int y), StrNum (of_int m)]"
    and "100 \<le> y" and "1 \<le> m" and "m \<le> 12"
    and "\<bar>timeValue y (m - 1) 1 0\<bar> \<le> 8640000000000000"
  shows "dateOfFields s = Date y (m - 1) 1 0"
proof -
  have "dateOfFields s = Date_new (Num (of_int y)) (Num (of_int (m - 1)))"
    by (simp add: dateOfFields_def assms(1))
  also have "\<dots> = MakeDate y (m - 1) 1 0"
    using assms(2) by (simp only: Date_new_ints) simp
  also have "\<dots> = TimeClip y (m - 1) 1 0"
    using assms(3,4) DaysInMonth_ge [of y "m - 1"] by (intro MakeDate_in_range) simp_all
  also have "\<dots> = Date y (m - 1) 1 0"
    using assms(5) by (simp add: TimeClip_def)
  finally show ?thesis .
qed

lemma parse_examples:
  "dateOfFields ''2023-01'' = Date 2023 0 1 0"
  "dateOfFields ''2023-03'' = Date 2023 2 1 0"
  "dateOfFields ''2023-06'' = Date 2023 5 1 0"
  "dateOfFields ''2023-07'' = Date 2023 6 1 0"
  "dateOfFields ''2023-09'' = Date 2023 8 1 0"
  "dateOfFields ''2023-12'' = Date 2023 11 1 0"
  using dateOfFields_year_month [of "''2023-01''" 2023 1]
    dateOfFields_year_month [of "''2023-03''" 2023 3]
    dateOfFields_year_month [of "''2023-06''" 2023 6]
    dateOfFields_year_month [of "''2023-07''" 2023 7]
    dateOfFields_year_month [of "''2023-09''" 2023 9]
    dateOfFields_year_month [of "''2023-12''" 2023 12]
  by (simp_all add: Number_defs calendar_defs)

text \<open>A date string with white space after the month resolves like the plain one.\<close>

lemma parse_padded: "dateOfFields ''2023-01 '' = Date 2023 0 1 0"
  using dateOfFields_year_month [of "''2023-01 ''" 2023 1]
  by (simp add: Number_defs calendar_defs)

subsection \<open>The first pass keeps the columns free of overlaps\<close>

lemma firstAvailable_none:
  "firstAvailable es s col = -1 \<longleftrightarrow> (\<forall>e \<in> set es. \<not> js_le e s)"
  by (induction es arbitrary: col) auto

lemma firstAvailable_found:
  "firstAvailable es s col \<noteq> -1 \<Longrightarrow>
     \<exists>k < length es. firstAvailable es s col = int (col + k) \<and> js_le (es ! k) s
        \<and> (\<forall>k' < k. \<not> js_le (es ! k') s)"
proof (induction es arbitrary: col)
  case Nil
  then show ?case by simp
next
  case (Cons e es)
  show ?case
  proof (cases "js_le e s")
    case True
    then show ?thesis by (intro exI [of _ 0]) simp
  next
    case False
    with Cons.prems have "firstAvailable es s (Suc col) \<noteq> -1" by simp
    from Cons.IH [OF this] obtain k where k: "k < length es"
      "firstAvailable es s (Suc col) = int (Suc col + k)" "js_le (es ! k) s"
      "\<forall>k' < k. \<not> js_le (es ! k') s" by blast
    show ?thesis
    proof (intro exI [of _ "Suc k"] conjI allI impI)
      fix k' assume "k' < Suc k"
      then show "\<not> js_le ((e # es) ! k') s"
        using False k(4) by (cases k') auto
    qed (use False k in auto)
  qed
qed

lemma chosenColumn_cases:
  obtains (fresh) "\<forall>e \<in> set ends. \<not> js_le e s" "firstAvailable ends s 0 = -1"
      "chosenColumn ends s = length ends"
  | (found) k where "k < length ends" "firstAvailable ends s 0 = int k"
      "chosenColumn ends s = k" "js_le (ends ! k) s" "\<forall>k' < k. \<not> js_le (ends ! k') s"
proof (cases "firstAvailable ends s 0 = -1")
  case True
  then show ?thesis
    using fresh firstAvailable_none [of ends s 0] by (simp add: chosenColumn_def)
next
  case False
  from firstAvailable_found [OF this] obtain k where "k < length ends"
    "firstAvailable ends s 0 = int k" "js_le (ends ! k) s" "\<forall>k' < k. \<not> js_le (ends ! k') s"
    by auto
  then show ?thesis
    using found [of k] by (simp add: chosenColumn_def)
qed

lemma chosenColumn_le: "chosenColumn ends s \<le> length ends"
  by (rule chosenColumn_cases [of ends s]) auto

lemma chosenColumn_free:
  "chosenColumn ends s < length ends \<Longrightarrow> js_le (ends ! chosenColumn ends s) s"
  by (rule chosenColumn_cases [of ends s]) auto

lemma chosenColumn_blocked:
  "c < chosenColumn ends s \<Longrightarrow> \<not> js_le (ends ! c) s"
  by (rule chosenColumn_cases [of ends s]) auto

lemma placeItem_eq:
  "placeItem now minDate mvm item (ends, bs) =
     (let s = visualStart now minDate item; e = visualEnd now minDate mvm item;
          c = chosenColumn ends s
      in ((if c = length ends then ends @ [e] else ends[c := e]),
          bs @ [\<lparr>b_id = item_id item, b_start = s, b_end = e, b_column = c\<rparr>]))"
  by (rule chosenColumn_cases [of ends "visualStart now minDate item"])
     (simp_all add: placeItem_def Let_def)

lemma Math_max_Num:
  "Math_max a b = Num r \<Longrightarrow> \<exists>x y. a = Num x \<and> b = Num y \<and> r = max x y"
  by (cases a; cases b) auto

lemma js_add_Num:
  "js_add a b = Num r \<Longrightarrow> \<exists>x y. a = Num x \<and> b = Num y \<and> r = x + y"
  by (cases a; cases b) auto

lemma visualEnd_after_start:
  assumes "visualEnd now minDate mvm item = Num e"
  shows "\<exists>s. visualStart now minDate item = Num s \<and> s + 1 \<le> e"
proof -
  from assms obtain s d where s: "visualStart now minDate item = Num s"
    and d: "Math_max mvm (getMonthsDuration now (startDate item) (endDate item)) = Num d"
    and e: "e = s + d"
    by (auto simp: visualEnd_def Let_def dest!: js_add_Num)
  from d obtain v a where "mvm = Num v"
    and a: "getMonthsDuration now (startDate item) (endDate item) = Num a" and "d = max v a"
    by (auto dest!: Math_max_Num)
  moreover from a have "1 \<le> a"
    by (auto simp: getMonthsDuration_def Let_def dest!: Math_max_Num)
  ultimately have "1 \<le> d" by simp
  with s e show ?thesis by simp
qed

lemma packed_placeItem:
  assumes "packed (ends, bs)"
  shows "packed (placeItem now minDate mvm item (ends, bs))"
proof -
  define s where "s = visualStart now minDate item"
  define e where "e = visualEnd now minDate mvm item"
  define c where "c = chosenColumn ends s"
  define nb where "nb = \<lparr>b_id = item_id item, b_start = s, b_end = e, b_column = c\<rparr>"
  define ends' where "ends' = (if c = length ends then ends @ [e] else ends[c := e])"
  have eq: "placeItem now minDate mvm item (ends, bs) = (ends', bs @ [nb])"
    by (simp add: placeItem_eq Let_def s_def e_def c_def nb_def ends'_def)
  have cle: "c \<le> length ends" by (simp add: c_def chosenColumn_le)
  have len: "length ends \<le> length ends'" and c_lt: "c < length ends'"
    using cle by (auto simp: ends'_def)
  have at_c: "ends' ! c = e"
    using cle by (auto simp: ends'_def)
  have other: "ends' ! k = ends ! k" if "k < length ends" "k \<noteq> c" for k
    using that by (auto simp: ends'_def nth_append)
  from assms have col: "\<And>b. b \<in> set bs \<Longrightarrow> b_column b < length ends"
    and wm: "\<And>b w. b \<in> set bs \<Longrightarrow> ends ! b_column b = Num w \<Longrightarrow> \<exists>x. b_end b = Num x \<and> x \<le> w"
    and srt: "sorted_wrt sameColumnOrdered bs"
    by (auto simp: packed_def)
  have before: "js_le (b_end b) s \<and> (\<forall>w. e = Num w \<longrightarrow> (\<exists>x. b_end b = Num x \<and> x \<le> w))"
    if b: "b \<in> set bs" and bc: "b_column b = c" for b
  proof -
    from col [OF b] bc have "c < length ends" by simp
    then have "js_le (ends ! c) s" unfolding c_def by (rule chosenColumn_free)
    then obtain w sv where w: "ends ! c = Num w" and sv: "s = Num sv" and "w \<le> sv"
      by (cases "ends ! c"; cases s) auto
    from wm [OF b] bc w obtain x where x: "b_end b = Num x" "x \<le> w" by auto
    show ?thesis
    proof (intro conjI allI impI)
      show "js_le (b_end b) s" using x sv \<open>w \<le> sv\<close> by simp
    next
      fix w' assume "e = Num w'"
      with visualEnd_after_start [of now minDate mvm item w'] sv
      have "sv + 1 \<le> w'" by (simp add: e_def s_def)
      with x \<open>w \<le> sv\<close> show "\<exists>x. b_end b = Num x \<and> x \<le> w'" by auto
    qed
  qed
  have 1: "b_column b < length ends' \<and>
           (\<forall>w. ends' ! b_column b = Num w \<longrightarrow> (\<exists>x. b_end b = Num x \<and> x \<le> w))"
    if "b \<in> set (bs @ [nb])" for b
  proof (cases "b = nb")
    case True
    then show ?thesis using c_lt at_c by (simp add: nb_def)
  next
    case False
    with that have b: "b \<in> set bs" by simp
    show ?thesis
    proof (cases "b_column b = c")
      case True
      with before [OF b] c_lt at_c show ?thesis by simp
    next
      case False
      with col [OF b] len wm [OF b] other show ?thesis by auto
    qed
  qed
  have 2: "sorted_wrt sameColumnOrdered (bs @ [nb])"
    using srt before by (auto simp: sorted_wrt_append sameColumnOrdered_def nb_def)
  from 1 2 show ?thesis
    unfolding eq packed_def by simp
qed

lemma packed_fold:
  "packed st \<Longrightarrow> packed (fold (placeItem now minDate mvm) xs st)"
proof (induction xs arbitrary: st)
  case Nil
  then show ?case by simp
next
  case (Cons x xs)
  from Cons.prems have "packed (placeItem now minDate mvm x st)"
    by (cases st) (simp add: packed_placeItem)
  from Cons.IH [OF this] show ?case by simp
qed

lemma packed_firstPass: "packed (firstPass now minDate mvm xs)"
  unfolding firstPass_def by (rule packed_fold) (simp add: packed_def)

lemma fold_placeItem_keys:
  "map boundsKey (snd (fold (placeItem now minDate mvm) xs st)) =
     map boundsKey (snd st) @ map (itemKey now minDate mvm) xs"
proof (induction xs arbitrary: st)
  case Nil
  then show ?case by simp
next
  case (Cons x xs)
  obtain ends bs where st: "st = (ends, bs)" by (cases st)
  obtain ends' c where step: "placeItem now minDate mvm x st =
      (ends', bs @ [\<lparr>b_id = item_id x, b_start = visualStart now minDate x,
                      b_end = visualEnd now minDate mvm x, b_column = c\<rparr>])"
    by (simp add: st placeItem_eq Let_def)
  have "map boundsKey (snd (fold (placeItem now minDate mvm) (x # xs) st)) =
      map boundsKey (snd (placeItem now minDate mvm x st)) @ map (itemKey now minDate mvm) xs"
    by (simp add: Cons.IH)
  also have "map boundsKey (snd (placeItem now minDate mvm x st)) =
      map boundsKey (snd st) @ [itemKey now minDate mvm x]"
    using step by (simp add: boundsKey_def itemKey_def st)
  finally show ?case by simp
qed

lemma firstPass_keys:
  "map boundsKey (snd (firstPass now minDate mvm xs)) = map (itemKey now minDate mvm) xs"
  by (simp add: firstPass_def fold_placeItem_keys)

lemma set_insertBy: "set (insertBy cmp x ys) = insert x (set ys)"
  by (induction ys) auto

lemma set_Array_sort: "set (Array_sort cmp xs) = set xs"
  by (induction xs) (auto simp: set_insertBy)

lemma distinct_map_insertBy:
  "distinct (map f (insertBy cmp x ys)) \<longleftrightarrow> f x \<notin> f ` set ys \<and> distinct (map f ys)"
  by (induction ys) (auto simp: set_insertBy)

lemma distinct_map_Array_sort:
  "distinct (map f (Array_sort cmp xs)) \<longleftrightarrow> distinct (map f xs)"
  by (induction xs) (auto simp: distinct_map_insertBy set_Array_sort)

lemma fold_upd_other:
  "k \<notin> g ` set xs \<Longrightarrow> fold (\<lambda>x m. m(g x \<mapsto> f x)) xs m k = m k"
  by (induction xs arbitrary: m) auto

lemma fold_upd_distinct:
  "distinct (map g xs) \<Longrightarrow> x \<in> set xs \<Longrightarrow> fold (\<lambda>x m. m(g x \<mapsto> f x)) xs m (g x) = Some (f x)"
proof (induction xs arbitrary: m)
  case Nil
  then show ?case by simp
next
  case (Cons y ys)
  show ?case
  proof (cases "x = y")
    case True
    with Cons.prems have "g y \<notin> g ` set ys" by simp
    from fold_upd_other [OF this, of f "m(g y \<mapsto> f y)"] True show ?thesis
      by (simp del: fun_upd_apply) simp
  next
    case False
    with Cons.prems have "distinct (map g ys)" "x \<in> set ys" by auto
    from Cons.IH [OF this] show ?thesis by (simp del: fun_upd_apply)
  qed
qed

lemma secondPass_distinct:
  "distinct (map b_id bs) \<Longrightarrow> b \<in> set bs \<Longrightarrow> secondPass bs (b_id b) = Some (layoutOf bs b)"
  unfolding secondPass_def by (rule fold_upd_distinct)

lemma assignColumnsWithLayout_eq:
  "assignColumnsWithLayout now items minDate mvm = secondPass (itemBoundsOf now items minDate mvm)"
  by (simp add: assignColumnsWithLayout_def itemBoundsOf_def Let_def)

lemma bounds_of_item:
  assumes "distinct (map item_id items)" and "a \<in> set items"
    and bs: "bs = itemBoundsOf now items minDate mvm"
  shows "\<exists>i < length bs. boundsKey (bs ! i) = itemKey now minDate mvm a \<and>
           assignColumnsWithLayout now items minDate mvm (item_id a) = Some (layoutOf bs (bs ! i))"
proof -
  let ?xs = "Array_sort (byStartDate now) items"
  have keys: "map boundsKey bs = map (itemKey now minDate mvm) ?xs"
    by (simp add: bs itemBoundsOf_def firstPass_keys)
  then have len: "length bs = length ?xs" by (metis length_map)
  from assms(2) have "a \<in> set ?xs" by (simp add: set_Array_sort)
  then obtain i where i: "i < length ?xs" "?xs ! i = a" by (auto simp: in_set_conv_nth)
  have key: "boundsKey (bs ! i) = itemKey now minDate mvm a"
    using i len nth_map [of i bs boundsKey] nth_map [of i ?xs "itemKey now minDate mvm"] keys
    by simp
  have "map b_id bs = map item_id ?xs"
  proof -
    have "map b_id bs = map fst (map boundsKey bs)" by (simp add: boundsKey_def o_def)
    also have "\<dots> = map item_id ?xs" by (simp add: keys itemKey_def o_def)
    finally show ?thesis .
  qed
  with assms(1) have "distinct (map b_id bs)" by (simp add: distinct_map_Array_sort)
  moreover have "bs ! i \<in> set bs" using i len by simp
  ultimately have "secondPass bs (b_id (bs ! i)) = Some (layoutOf bs (bs ! i))"
    by (rule secondPass_distinct)
  moreover have "b_id (bs ! i) = item_id a" using key by (simp add: boundsKey_def itemKey_def)
  ultimately show ?thesis
    using i len key by (auto simp: assignColumnsWithLayout_eq bs)
qed

lemma ex_fields:
  "item_id exA = ''a''" "startDate exA = ''2023-01''" "endDate exA = ''2023-06''"
  "item_id exB = ''b''" "startDate exB = ''2023-03''" "endDate exB = ''2023-09''"
  "item_id exC = ''c''" "startDate exC = ''2023-07''" "endDate exC = ''2023-12''"
  by (simp_all add: exA_def exB_def exC_def entry_def)

lemma ex_parse:
  "parseDate now (startDate exA) = Date 2023 0 1 0"
  "parseDate now (startDate exB) = Date 2023 2 1 0"
  "parseDate now (startDate exC) = Date 2023 6 1 0"
  "parseDateForBounds now (endDate exA) = Date 2023 5 1 0"
  "parseDateForBounds now (endDate exB) = Date 2023 8 1 0"
  "parseDateForBounds now (endDate exC) = Date 2023 11 1 0"
  by (simp_all add: ex_fields parseDate_def parseDateForBounds_def parse_examples)

lemma ex_visual:
  "visualStart now (Date 2023 0 1 0) exA = Num 0"
  "visualStart now (Date 2023 0 1 0) exB = Num 2"
  "visualStart now (Date 2023 0 1 0) exC = Num 6"
  "visualEnd now (Date 2023 0 1 0) (Num (15/4)) exA = Num 5"
  "visualEnd now (Date 2023 0 1 0) (Num (15/4)) exB = Num 8"
  "visualEnd now (Date 2023 0 1 0) (Num (15/4)) exC = Num 11"
  by (simp_all add: visualStart_def visualEnd_def getMonthsDuration_def monthsBetween_def
      ex_parse Let_def)

lemma ex_sorted: "Array_sort (byStartDate now) [exA, exB, exC] = [exA, exB, exC]"
  by (simp add: byStartDate_def ex_parse js_gt_def calendar_defs)

lemma ex_bounds:
  "itemBoundsOf now [exA, exB, exC] (Date 2023 0 1 0) (Num (15/4)) =
     [\<lparr>b_id = ''a'', b_start = Num 0, b_end = Num 5, b_column = 0\<rparr>,
      \<lparr>b_id = ''b'', b_start = Num 2, b_end = Num 8, b_column = 1\<rparr>,
      \<lparr>b_id = ''c'', b_start = Num 6, b_end = Num 11, b_column = 0\<rparr>]"
  unfolding itemBoundsOf_def ex_sorted
  by (simp add: firstPass_def placeItem_def ex_visual ex_fields Let_def)

lemma ex_layout:
  "assignColumnsWithLayout now [exA, exB, exC] (Date 2023 0 1 0) (Num (15/4)) ''a'' =
     Some \<lparr>column = 0, localColumnCount = 2, localColumnOffset = 0\<rparr>"
  "assignColumnsWithLayout now [exA, exB, exC] (Date 2023 0 1 0) (Num (15/4)) ''c'' =
     Some \<lparr>column = 0, localColumnCount = 2, localColumnOffset = 0\<rparr>"
  by (simp_all add: assignColumnsWithLayout_eq ex_bounds secondPass_def layoutOf_def
      overlapsBounds_def js_gt_def Let_def)

text \<open>
  C1. Two entries that \<open>assignColumnsWithLayout\<close> places in the same column have
  visual intervals that do not overlap: not both the start of each lies before the
  end of the other. The start is the offset in months from \<open>minDate\<close> and the end
  is the start plus \<open>max(minVisualMonths, actual duration)\<close>. This holds for every
  list of entries with distinct ids, every \<open>minDate\<close> and every \<open>minVisualMonths\<close>,
  malformed dates included.
\<close>

theorem same_column_no_overlap:
  assumes "distinct (map item_id items)"
    and "a \<in> set items" and "b \<in> set items" and "a \<noteq> b"
    and "assignColumnsWithLayout now items minDate mvm (item_id a) = Some la"
    and "assignColumnsWithLayout now items minDate mvm (item_id b) = Some lb"
    and "column la = column lb"
  shows "\<not> (js_lt (visualStart now minDate a) (visualEnd now minDate mvm b) \<and>
            js_lt (visualStart now minDate b) (visualEnd now minDate mvm a))"
proof -
  define bs where "bs = itemBoundsOf now items minDate mvm"
  from bounds_of_item [OF assms(1,2) bs_def] assms(5)
  obtain i where i: "i < length bs" "boundsKey (bs ! i) = itemKey now minDate mvm a"
    "la = layoutOf bs (bs ! i)" by auto
  from bounds_of_item [OF assms(1,3) bs_def] assms(6)
  obtain j where j: "j < length bs" "boundsKey (bs ! j) = itemKey now minDate mvm b"
    "lb = layoutOf bs (bs ! j)" by auto
  from assms(1) have "inj_on item_id (set items)" by (simp add: distinct_map)
  with assms(2-4) have "item_id a \<noteq> item_id b" by (auto dest: inj_onD)
  with i(2) j(2) have "i \<noteq> j"
    by (auto simp: itemKey_def)
  have cols: "b_column (bs ! i) = b_column (bs ! j)"
    using assms(7) i(3) j(3) by (simp add: layoutOf_def Let_def)
  have "sorted_wrt sameColumnOrdered bs"
    using packed_firstPass [of now minDate mvm "Array_sort (byStartDate now) items"]
    by (simp add: packed_def bs_def itemBoundsOf_def)
  then have ord: "\<And>p q. p < q \<Longrightarrow> q < length bs \<Longrightarrow> sameColumnOrdered (bs ! p) (bs ! q)"
    by (simp add: sorted_wrt_iff_nth_less)
  have se: "b_start (bs ! i) = visualStart now minDate a" "b_end (bs ! i) = visualEnd now minDate mvm a"
    "b_start (bs ! j) = visualStart now minDate b" "b_end (bs ! j) = visualEnd now minDate mvm b"
    using i(2) j(2) by (simp_all add: boundsKey_def itemKey_def)
  show ?thesis
  proof (cases "i < j")
    case True
    from ord [OF True j(1)] cols have "js_le (visualEnd now minDate mvm a) (visualStart now minDate b)"
      by (simp add: sameColumnOrdered_def se)
    then show ?thesis
      by (cases "visualEnd now minDate mvm a"; cases "visualStart now minDate b") auto
  next
    case False
    with \<open>i \<noteq> j\<close> have "j < i" by simp
    from ord [OF this i(1)] cols have "js_le (visualEnd now minDate mvm b) (visualStart now minDate a)"
      by (simp add: sameColumnOrdered_def se)
    then show ?thesis
      by (cases "visualEnd now minDate mvm b"; cases "visualStart now minDate a") auto
  qed
qed

theorem same_column_no_overlap_witness:
  "distinct (map item_id [exA, exB, exC]) \<and> exA \<in> set [exA, exB, exC] \<and>
   exC \<in> set [exA, exB, exC] \<and> exA \<noteq> exC \<and>
   assignColumnsWithLayout (Date 2023 3 15 5000) [exA, exB, exC] (Date 2023 0 1 0)
     (Num (15 / 4)) (item_id exA) =
     Some \<lparr>column = 0, localColumnCount = 2, localColumnOffset = 0\<rparr> \<and>
   assignColumnsWithLayout (Date 2023 3 15 5000) [exA, exB, exC] (Date 2023 0 1 0)
     (Num (15 / 4)) (item_id exC) =
     Some \<lparr>column = 0, localColumnCount = 2, localColumnOffset = 0\<rparr> \<and>
   \<not> (js_lt (visualStart (Date 2023 3 15 5000) (Date 2023 0 1 0) exA)
             (visualEnd (Date 2023 3 15 5000) (Date 2023 0 1 0) (Num (15 / 4)) exC) \<and>
        js_lt (visualStart (Date 2023 3 15 5000) (Date 2023 0 1 0) exC)
             (visualEnd (Date 2023 3 15 5000) (Date 2023 0 1 0) (Num (15 / 4)) exA))"
proof -
  have 1: "distinct (map item_id [exA, exB, exC])" by (simp add: ex_fields)
  have 2: "exA \<in> set [exA, exB, exC]" "exC \<in> set [exA, exB, exC]" by simp_all
  have 3: "exA \<noteq> exC" by (simp add: exA_def exC_def entry_def)
  note 4 = ex_layout [of "Date 2023 3 15 5000", folded ex_fields(1) ex_fields(7)]
  from same_column_no_overlap [OF 1 2 3 4] 1 2 3 4 show ?thesis by simp
qed

subsection \<open>Entries whose interval is a number, and entries whose interval is not\<close>

lemma indexOf_absent: "x \<notin> set xs \<Longrightarrow> indexOf xs x = -1"
  by (induction xs) auto

lemma indexOf_present: "x \<in> set xs \<Longrightarrow> 0 \<le> indexOf xs x \<and> indexOf xs x < int (length xs)"
  by (induction xs) (auto simp: Let_def)

lemma monthsBetween_valid:
  "a \<noteq> InvalidDate \<Longrightarrow> b \<noteq> InvalidDate \<Longrightarrow> \<exists>r. monthsBetween a b = Num r"
  by (cases a; cases b) (simp_all add: monthsBetween_def)

lemma monthsBetween_invalid [simp]:
  "monthsBetween InvalidDate b = NaN" "monthsBetween a InvalidDate = NaN"
  by (simp_all add: monthsBetween_def)

lemma getMonthsDuration_valid:
  assumes "parseDate now s \<noteq> InvalidDate" and "parseDateForBounds now e \<noteq> InvalidDate"
  shows "\<exists>r. getMonthsDuration now s e = Num r \<and> 1 \<le> r"
  using monthsBetween_valid [OF assms] by (auto simp: getMonthsDuration_def)

lemma visual_interval_valid:
  assumes "parseDate now (startDate a) \<noteq> InvalidDate"
    and "parseDateForBounds now (endDate a) \<noteq> InvalidDate"
    and "minDate \<noteq> InvalidDate" and "mvm \<noteq> NaN"
  shows "\<exists>s e. visualStart now minDate a = Num s \<and> visualEnd now minDate mvm a = Num e \<and> s + 1 \<le> e"
proof -
  from monthsBetween_valid [OF assms(3,1)] obtain s where s: "visualStart now minDate a = Num s"
    by (auto simp: visualStart_def)
  from getMonthsDuration_valid [OF assms(1,2)] obtain r where
    r: "getMonthsDuration now (startDate a) (endDate a) = Num r" "1 \<le> r" by auto
  from assms(4) obtain v where v: "mvm = Num v" by (cases mvm) auto
  have "visualEnd now minDate mvm a = Num (s + max v r)"
    by (simp add: visualEnd_def s r v)
  with s r(2) show ?thesis by auto
qed

lemma layoutOf_self_overlap:
  assumes "b \<in> set bs" and "overlapsBounds b b"
  shows "1 \<le> localColumnCount (layoutOf bs b) \<and> 0 \<le> localColumnOffset (layoutOf bs b) \<and>
         localColumnOffset (layoutOf bs b) < int (localColumnCount (layoutOf bs b))"
proof -
  let ?cols = "remdups (map b_column (filter (overlapsBounds b) bs))"
  from assms have "b_column b \<in> set (sort ?cols)" by auto
  from indexOf_present [OF this] have "0 \<le> indexOf (sort ?cols) (b_column b)"
    "indexOf (sort ?cols) (b_column b) < int (length ?cols)" by simp_all
  moreover from this have "1 \<le> length ?cols" by linarith
  ultimately show ?thesis by (simp add: layoutOf_def Let_def)
qed

lemma layoutOf_no_overlap:
  assumes "\<And>other. \<not> overlapsBounds b other"
  shows "localColumnCount (layoutOf bs b) = 0 \<and> localColumnOffset (layoutOf bs b) = -1"
  using assms by (simp add: layoutOf_def Let_def)

text \<open>
  C10 (as amended). For a list of entries with distinct ids, an entry whose start
  date and end date resolve to valid dates, a valid \<open>minDate\<close> and a
  \<open>minVisualMonths\<close> that is a number, the layout of the entry exists and has
  \<open>localColumnCount \<ge> 1\<close> and \<open>0 \<le> localColumnOffset < localColumnCount\<close>: the
  visual interval of the entry is at least one month long, so the entry overlaps
  itself and its own column is among the used columns.
\<close>

theorem layout_offset_in_range:
  assumes "distinct (map item_id items)" and "a \<in> set items"
    and "parseDate now (startDate a) \<noteq> InvalidDate"
    and "parseDateForBounds now (endDate a) \<noteq> InvalidDate"
    and "minDate \<noteq> InvalidDate" and "mvm \<noteq> NaN"
  shows "\<exists>l. assignColumnsWithLayout now items minDate mvm (item_id a) = Some l \<and>
           1 \<le> localColumnCount l \<and> 0 \<le> localColumnOffset l \<and>
           localColumnOffset l < int (localColumnCount l)"
proof -
  define bs where "bs = itemBoundsOf now items minDate mvm"
  from bounds_of_item [OF assms(1,2) bs_def]
  obtain i where i: "i < length bs" "boundsKey (bs ! i) = itemKey now minDate mvm a"
    "assignColumnsWithLayout now items minDate mvm (item_id a) = Some (layoutOf bs (bs ! i))"
    by auto
  from visual_interval_valid [OF assms(3-6)] obtain s e where
    "visualStart now minDate a = Num s" "visualEnd now minDate mvm a = Num e" "s + 1 \<le> e"
    by auto
  with i(2) have "overlapsBounds (bs ! i) (bs ! i)"
    by (simp add: overlapsBounds_def js_gt_def boundsKey_def itemKey_def)
  moreover have "bs ! i \<in> set bs" using i(1) by simp
  ultimately show ?thesis
    using layoutOf_self_overlap [of "bs ! i" bs] i(3) by simp
qed

theorem layout_offset_in_range_witness:
  "distinct (map item_id [exA, exB, exC]) \<and> exA \<in> set [exA, exB, exC] \<and>
   parseDate (Date 2023 3 15 5000) (startDate exA) \<noteq> InvalidDate \<and>
   parseDateForBounds (Date 2023 3 15 5000) (endDate exA) \<noteq> InvalidDate \<and>
   Date 2023 0 1 0 \<noteq> InvalidDate \<and> Num (15 / 4) \<noteq> NaN \<and>
   (\<exists>l. assignColumnsWithLayout (Date 2023 3 15 5000) [exA, exB, exC] (Date 2023 0 1 0)
          (Num (15 / 4)) (item_id exA) = Some l \<and>
        1 \<le> localColumnCount l \<and> 0 \<le> localColumnOffset l \<and>
        localColumnOffset l < int (localColumnCount l))"
proof -
  have 1: "distinct (map item_id [exA, exB, exC])" by (simp add: ex_fields)
  have 2: "exA \<in> set [exA, exB, exC]" by simp
  have 3: "parseDate (Date 2023 3 15 5000) (startDate exA) \<noteq> InvalidDate"
    "parseDateForBounds (Date 2023 3 15 5000) (endDate exA) \<noteq> InvalidDate"
    by (simp_all add: ex_parse)
  have 4: "Date 2023 0 1 0 \<noteq> InvalidDate" "Num (15 / 4) \<noteq> NaN" by simp_all
  from layout_offset_in_range [OF 1 2 3 4] 1 2 3 4 show ?thesis by blast
qed

lemma garbage_invalid: "dateOfFields ''garbage'' = InvalidDate"
  by (simp add: dateOfFields_def Number_defs)

lemma exBad_fields: "item_id exBad = ''x''" "startDate exBad = ''garbage''" "endDate exBad = ''present''"
  by (simp_all add: exBad_def entry_def)

lemma exBad_parse: "parseDate now ''garbage'' = InvalidDate"
  "parseDateForBounds now ''present'' = now"
  by (simp_all add: parseDate_def parseDateForBounds_def garbage_invalid)

lemma exBad_bounds:
  "timelineBounds now [exBad] = \<lparr>tb_minDate = InvalidDate, tb_maxDate = InvalidDate, tb_totalMonths = NaN\<rparr>"
  by (simp add: timelineBounds_def exBad_parse exBad_fields Let_def)

lemma exBad_layout:
  "assignColumnsWithLayout now [exBad] minDate mvm ''x'' =
     Some \<lparr>column = 0, localColumnCount = 0, localColumnOffset = -1\<rparr>"
  by (simp add: assignColumnsWithLayout_def firstPass_def placeItem_def visualStart_def visualEnd_def
      exBad_parse exBad_fields secondPass_def layoutOf_def overlapsBounds_def js_gt_def Let_def)

text \<open>
  C10 as stated fails on an entry whose start date is malformed: its visual interval
  is \<open>NaN\<close>, it overlaps nothing, not even itself, and the second pass gives it
  \<open>localColumnCount = 0\<close> and \<open>localColumnOffset = -1\<close>.
\<close>

theorem malformed_entry_layout_counterexample:
  "distinct (map item_id [exBad]) \<and>
   assignColumnsWithLayout (Date 2023 3 15 0) [exBad] (Date 2023 0 1 0) (Num (15 / 4))
     (item_id exBad) =
     Some \<lparr>column = 0, localColumnCount = 0, localColumnOffset = -1\<rparr> \<and>
   itemLayouts (Date 2023 3 15 0) [exBad] 16 (item_id exBad) =
     Some \<lparr>column = 0, localColumnCount = 0, localColumnOffset = -1\<rparr> \<and>
   \<not> (1 \<le> localColumnCount (the (itemLayouts (Date 2023 3 15 0) [exBad] 16 (item_id exBad))) \<and>
      0 \<le> localColumnOffset (the (itemLayouts (Date 2023 3 15 0) [exBad] 16 (item_id exBad))))"
  by (simp add: itemLayouts_def exBad_layout exBad_fields)

subsection \<open>Malformed dates reach the bounds of the timeline\<close>

lemma earlier_invalid [simp]: "earlier InvalidDate d = InvalidDate" "earlier d InvalidDate = InvalidDate"
  by (cases d; simp)+

lemma later_invalid [simp]: "later InvalidDate d = InvalidDate" "later d InvalidDate = InvalidDate"
  by (cases d; simp)+

lemma fold_earlier_from_invalid:
  "fold (\<lambda>x acc. earlier acc x) ds InvalidDate = InvalidDate"
  by (induction ds) simp_all

lemma fold_later_from_invalid:
  "fold (\<lambda>x acc. later acc x) ds InvalidDate = InvalidDate"
  by (induction ds) simp_all

lemma fold_earlier_invalid:
  "InvalidDate \<in> set ds \<Longrightarrow> fold (\<lambda>x acc. earlier acc x) ds d = InvalidDate"
proof (induction ds arbitrary: d)
  case Nil
  then show ?case by simp
next
  case (Cons x xs)
  show ?case
  proof (cases "x = InvalidDate")
    case True
    then show ?thesis by (simp add: fold_earlier_from_invalid)
  next
    case False
    with Cons.prems have "InvalidDate \<in> set xs" by simp
    from Cons.IH [OF this] show ?thesis by simp
  qed
qed

lemma fold_later_invalid:
  "InvalidDate \<in> set ds \<Longrightarrow> fold (\<lambda>x acc. later acc x) ds d = InvalidDate"
proof (induction ds arbitrary: d)
  case Nil
  then show ?case by simp
next
  case (Cons x xs)
  show ?case
  proof (cases "x = InvalidDate")
    case True
    then show ?thesis by (simp add: fold_later_from_invalid)
  next
    case False
    with Cons.prems have "InvalidDate \<in> set xs" by simp
    from Cons.IH [OF this] show ?thesis by simp
  qed
qed

lemma Date_of_min_invalid: "InvalidDate \<in> set ds \<Longrightarrow> Date_of_min ds = InvalidDate"
  by (cases ds) (auto simp: fold_earlier_invalid fold_earlier_from_invalid)

lemma Date_of_max_invalid: "InvalidDate \<in> set ds \<Longrightarrow> Date_of_max ds = InvalidDate"
  by (cases ds) (auto simp: fold_later_invalid fold_later_from_invalid)

lemma timelineBounds_invalid:
  assumes "bad \<in> set items"
    and "parseDate now (startDate bad) = InvalidDate \<or>
         parseDateForBounds now (endDate bad) = InvalidDate"
  shows "timelineBounds now items =
           \<lparr>tb_minDate = InvalidDate, tb_maxDate = InvalidDate, tb_totalMonths = NaN\<rparr>"
proof -
  let ?all = "map (\<lambda>item. parseDate now (startDate item)) items @
              map (\<lambda>item. parseDateForBounds now (endDate item)) items"
  have "InvalidDate \<in> set ?all"
    using assms(2)
  proof
    assume "parseDate now (startDate bad) = InvalidDate"
    with assms(1) have "InvalidDate \<in> (\<lambda>item. parseDate now (startDate item)) ` set items"
      by (metis imageI)
    then show ?thesis by simp
  next
    assume "parseDateForBounds now (endDate bad) = InvalidDate"
    with assms(1) have "InvalidDate \<in> (\<lambda>item. parseDateForBounds now (endDate item)) ` set items"
      by (metis imageI)
    then show ?thesis by simp
  qed
  then have "Date_of_min ?all = InvalidDate" "Date_of_max ?all = InvalidDate"
    by (rule Date_of_min_invalid, rule Date_of_max_invalid)
  moreover from assms(1) have "length items \<noteq> 0" by auto
  ultimately show ?thesis
    by (simp add: timelineBounds_def Let_def)
qed

lemma visual_invalid_minDate [simp]:
  "visualStart now InvalidDate a = NaN" "visualEnd now InvalidDate mvm a = NaN"
  by (simp_all add: visualStart_def visualEnd_def)

lemma layout_without_minDate:
  assumes "distinct (map item_id items)" and "a \<in> set items"
  shows "\<exists>l. assignColumnsWithLayout now items InvalidDate mvm (item_id a) = Some l \<and>
           localColumnCount l = 0 \<and> localColumnOffset l = -1"
proof -
  define bs where "bs = itemBoundsOf now items InvalidDate mvm"
  from bounds_of_item [OF assms bs_def]
  obtain i where i: "i < length bs" "boundsKey (bs ! i) = itemKey now InvalidDate mvm a"
    "assignColumnsWithLayout now items InvalidDate mvm (item_id a) = Some (layoutOf bs (bs ! i))"
    by auto
  from i(2) have "b_start (bs ! i) = NaN" "b_end (bs ! i) = NaN"
    by (simp_all add: boundsKey_def itemKey_def)
  then have "\<And>other. \<not> overlapsBounds (bs ! i) other"
    by (simp add: overlapsBounds_def js_gt_def)
  from layoutOf_no_overlap [OF this] i(3) show ?thesis by simp
qed

lemma getScaleForMonth_invalid: "getScaleForMonth InvalidDate ppm zones k = ppm"
proof -
  have "zoneScale ppm NaN zones = ppm" by (induction zones) (simp_all add: js_ge_def)
  then show ?thesis by (simp add: getScaleForMonth_def)
qed

lemma sum_list_constant: "sum_list (map (\<lambda>i. c) xs) = of_nat (length xs) * (c :: rat)"
  by (induction xs) (simp_all add: algebra_simps)

lemma getItemStyle_invalid:
  "getItemStyle now InvalidDate ppm zones isReversed totalH item =
     \<lparr>top_px = (if isReversed
                then totalH - max MIN_ITEM_HEIGHT
                       (ppm * of_nat (loopCount (getMonthsDuration now (startDate item) (endDate item))))
                else 0),
      height = max MIN_ITEM_HEIGHT
                 (ppm * of_nat (loopCount (getMonthsDuration now (startDate item) (endDate item))))\<rparr>"
  by (simp add: getItemStyle_def getPixelOffsetForMonth_def getScaleForMonth_invalid
      sum_list_constant Let_def mult.commute)

lemma getMonthsDuration_invalid:
  assumes "parseDate now s = InvalidDate \<or> parseDateForBounds now e = InvalidDate"
  shows "getMonthsDuration now s e = NaN"
  using assms by (auto simp: getMonthsDuration_def Let_def)

text \<open>
  C5 (as amended). No guard replaces a date that does not resolve. When the start
  or the end date of an entry of the list resolves to an invalid date, the bounds
  of the timeline are invalid (\<open>minDate\<close> and \<open>maxDate\<close> invalid, \<open>totalMonths\<close>
  \<open>NaN\<close>). The layout pass still completes: the total height is 0, and every entry
  of the list gets a layout with \<open>localColumnCount = 0\<close> and
  \<open>localColumnOffset = -1\<close>. No zoom zone applies any more: on either axis the
  height of every entry is \<open>max(MIN_ITEM_HEIGHT, pixelsPerMonth * n)\<close>, where \<open>n\<close> is
  the number of iterations of the loop over its duration, and it is
  \<open>MIN_ITEM_HEIGHT\<close> for the entry whose date does not resolve (its duration is
  \<open>NaN\<close>). On the axis that is not reversed every entry is drawn at top 0; on the
  reversed axis every entry is drawn at top \<open>- height\<close>, which is
  \<open>- MIN_ITEM_HEIGHT\<close> for the entry whose date does not resolve.
\<close>

theorem malformed_date_propagates:
  assumes "distinct (map item_id items)" and "bad \<in> set items"
    and "parseDate now (startDate bad) = InvalidDate \<or>
         parseDateForBounds now (endDate bad) = InvalidDate"
    and "a \<in> set items"
  shows "timelineBounds now items =
           \<lparr>tb_minDate = InvalidDate, tb_maxDate = InvalidDate, tb_totalMonths = NaN\<rparr> \<and>
         totalHeight (tb_minDate (timelineBounds now items)) ppm zones
           (tb_totalMonths (timelineBounds now items)) = 0 \<and>
         (\<exists>l. itemLayouts now items ppm (item_id a) = Some l \<and>
           localColumnCount l = 0 \<and> localColumnOffset l = -1) \<and>
         height (itemStyle now items ppm zones isReversed a) =
           max MIN_ITEM_HEIGHT
             (ppm * of_nat (loopCount (getMonthsDuration now (startDate a) (endDate a)))) \<and>
         height (itemStyle now items ppm zones isReversed bad) = MIN_ITEM_HEIGHT \<and>
         top_px (itemStyle now items ppm zones False a) = 0 \<and>
         top_px (itemStyle now items ppm zones True a) =
           - height (itemStyle now items ppm zones True a) \<and>
         top_px (itemStyle now items ppm zones True bad) = - MIN_ITEM_HEIGHT"
proof -
  note tb = timelineBounds_invalid [OF assms(2,3)]
  have th: "totalHeight InvalidDate ppm zones NaN = 0" by (simp add: totalHeight_def)
  have st: "itemStyle now items ppm zones r x =
      getItemStyle now InvalidDate ppm zones r 0 x" for r x
    by (simp add: itemStyle_def tb th Let_def)
  have dur: "loopCount (getMonthsDuration now (startDate bad) (endDate bad)) = 0"
    by (simp add: getMonthsDuration_invalid [OF assms(3)])
  note lay = layout_without_minDate [OF assms(1,4), of now "minVisualMonths ppm"]
  have 1: "height (itemStyle now items ppm zones isReversed a) =
      max MIN_ITEM_HEIGHT
        (ppm * of_nat (loopCount (getMonthsDuration now (startDate a) (endDate a))))"
    by (simp add: st getItemStyle_invalid)
  have 2: "height (itemStyle now items ppm zones isReversed bad) = MIN_ITEM_HEIGHT"
    by (simp add: st getItemStyle_invalid dur MIN_ITEM_HEIGHT_def)
  have 3: "top_px (itemStyle now items ppm zones False a) = 0"
    by (simp add: st getItemStyle_invalid)
  have 4: "top_px (itemStyle now items ppm zones True a) =
      - height (itemStyle now items ppm zones True a)"
    by (simp add: st getItemStyle_invalid)
  have 5: "top_px (itemStyle now items ppm zones True bad) = - MIN_ITEM_HEIGHT"
    by (simp add: st getItemStyle_invalid dur MIN_ITEM_HEIGHT_def)
  from lay have 6: "\<exists>l. itemLayouts now items ppm (item_id a) = Some l \<and>
           localColumnCount l = 0 \<and> localColumnOffset l = -1"
    by (simp add: tb itemLayouts_def)
  have 7: "totalHeight (tb_minDate (timelineBounds now items)) ppm zones
           (tb_totalMonths (timelineBounds now items)) = 0"
    by (simp add: tb th)
  from tb 7 6 1 2 3 4 5 show ?thesis by (intro conjI)
qed

theorem malformed_date_propagates_witness:
  "distinct (map item_id [exBad]) \<and> exBad \<in> set [exBad] \<and>
   parseDate (Date 2023 3 15 0) (startDate exBad) = InvalidDate \<and>
   timelineBounds (Date 2023 3 15 0) [exBad] =
     \<lparr>tb_minDate = InvalidDate, tb_maxDate = InvalidDate, tb_totalMonths = NaN\<rparr> \<and>
   totalHeight (tb_minDate (timelineBounds (Date 2023 3 15 0) [exBad])) 16 []
     (tb_totalMonths (timelineBounds (Date 2023 3 15 0) [exBad])) = 0 \<and>
   (\<exists>l. itemLayouts (Date 2023 3 15 0) [exBad] 16 (item_id exBad) = Some l \<and>
        localColumnCount l = 0 \<and> localColumnOffset l = -1) \<and>
   height (itemStyle (Date 2023 3 15 0) [exBad] 16 [] True exBad) = 60 \<and>
   top_px (itemStyle (Date 2023 3 15 0) [exBad] 16 [] False exBad) = 0 \<and>
   top_px (itemStyle (Date 2023 3 15 0) [exBad] 16 [] True exBad) = - 60"
proof -
  have 1: "distinct (map item_id [exBad])" by simp
  have 2: "exBad \<in> set [exBad]" by simp
  have 3: "parseDate (Date 2023 3 15 0) (startDate exBad) = InvalidDate"
    by (simp add: exBad_fields exBad_parse)
  then have 4: "parseDate (Date 2023 3 15 0) (startDate exBad) = InvalidDate \<or>
      parseDateForBounds (Date 2023 3 15 0) (endDate exBad) = InvalidDate" by simp
  note main = malformed_date_propagates [OF 1 2 4 2, of 16 "[]" True]
  from main have 5: "height (itemStyle (Date 2023 3 15 0) [exBad] 16 [] True exBad) = 60"
    and 6: "top_px (itemStyle (Date 2023 3 15 0) [exBad] 16 [] True exBad) = - 60"
    by (simp_all add: MIN_ITEM_HEIGHT_def)
  from main 1 2 3 5 6 show ?thesis by blast
qed

text \<open>
  C5 as stated fails: the start date \<^verbatim>\<open>"garbage"\<close> resolves to an invalid date,
  nothing is substituted for it, and the invalid value reaches the bounds of the
  timeline.
\<close>

theorem malformed_date_unguarded_counterexample:
  "parseDate (Date 2023 3 15 0) (startDate exBad) = InvalidDate \<and>
   timelineBounds (Date 2023 3 15 0) [exBad] =
     \<lparr>tb_minDate = InvalidDate, tb_maxDate = InvalidDate, tb_totalMonths = NaN\<rparr>"
  by (simp add: exBad_bounds exBad_fields exBad_parse)

subsection \<open>An entry that runs until the present\<close>

lemma januaryStart: "dateOfFields ''2023-01'' = Date 2023 0 1 0"
  by (rule parse_examples(1))

lemma april_duration:
  "getMonthsDuration (Date 2023 3 d ms) ''2023-01'' ''present'' = Num 3"
  by (simp add: getMonthsDuration_def parseDate_def parseDateForBounds_def januaryStart
      monthsBetween_def)

lemma april_bounds:
  assumes "properDate (Date 2023 3 d ms)" and "startDate it = ''2023-01''" and "endDate it = ''present''"
  shows "timelineBounds (Date 2023 3 d ms) [it] =
     \<lparr>tb_minDate = Date 2023 0 1 0, tb_maxDate = Date 2023 3 d ms, tb_totalMonths = Num 4\<rparr>"
proof -
  from assms(1) have "1 \<le> d" "0 \<le> ms" by simp_all
  then have t: "timeValue 2023 0 1 0 < timeValue 2023 3 d ms"
    by (simp add: calendar_defs)
  then have t': "\<not> timeValue 2023 3 d ms < timeValue 2023 0 1 0" by simp
  show ?thesis
    by (simp add: timelineBounds_def parseDate_def parseDateForBounds_def januaryStart
      monthsBetween_def t t' assms(2,3) Let_def)
qed

lemma april_entry:
  assumes "properDate (Date 2023 3 d ms)" and "0 < ppm"
    and "startDate it = ''2023-01''" and "endDate it = ''present''"
  shows "getMonthsDuration (Date 2023 3 d ms) (startDate it) (endDate it) = Num 3 \<and>
    visualStart (Date 2023 3 d ms) (tb_minDate (timelineBounds (Date 2023 3 d ms) [it])) it = Num 0 \<and>
    visualEnd (Date 2023 3 d ms) (tb_minDate (timelineBounds (Date 2023 3 d ms) [it]))
      (minVisualMonths ppm) it = Num (max (MIN_ITEM_HEIGHT / ppm) 3) \<and>
    itemLayouts (Date 2023 3 d ms) [it] ppm (item_id it) =
      Some \<lparr>column = 0, localColumnCount = 1, localColumnOffset = 0\<rparr> \<and>
    height (itemStyle (Date 2023 3 d ms) [it] ppm [] isReversed it) = max MIN_ITEM_HEIGHT (3 * ppm)"
proof -
  let ?now = "Date 2023 3 d ms"
  note tb = april_bounds [OF assms(1,3,4)]
  have dur: "getMonthsDuration ?now (startDate it) (endDate it) = Num 3"
    by (simp add: assms(3,4) april_duration)
  have vs: "visualStart ?now (Date 2023 0 1 0) it = Num 0"
    by (simp add: visualStart_def assms(3) parseDate_def januaryStart monthsBetween_def)
  have ve: "visualEnd ?now (Date 2023 0 1 0) (minVisualMonths ppm) it = Num (max (MIN_ITEM_HEIGHT / ppm) 3)"
    by (simp add: visualEnd_def vs dur minVisualMonths_def)
  have pos: "0 < max (MIN_ITEM_HEIGHT / ppm) 3" by simp
  have lay: "assignColumnsWithLayout ?now [it] (Date 2023 0 1 0) (minVisualMonths ppm) (item_id it) =
      Some \<lparr>column = 0, localColumnCount = 1, localColumnOffset = 0\<rparr>"
    using pos
    by (simp add: assignColumnsWithLayout_def firstPass_def placeItem_def vs ve secondPass_def
        layoutOf_def overlapsBounds_def js_gt_def Let_def)
  have h: "height (getItemStyle ?now (Date 2023 0 1 0) ppm [] isReversed totalH it) =
      max MIN_ITEM_HEIGHT (3 * ppm)" for totalH
    by (simp add: getItemStyle_def dur getScaleForMonth_def sum_list_triv Let_def)
  show ?thesis
    by (simp add: tb dur vs ve lay h itemLayouts_def itemStyle_def Let_def)
qed

text \<open>
  C2 (as amended). For a single entry from \<^verbatim>\<open>"2023-01"\<close> to \<^verbatim>\<open>"present"\<close>,
  evaluated at a moment of April 2023 with a positive scale: the duration is 3
  months (the difference between the month of the end and the month of the start;
  April itself is not counted), the visual interval runs from 0 to
  \<open>max(minVisualMonths, 3)\<close>, the entry is in column 0 with \<open>localColumnCount = 1\<close>
  and \<open>localColumnOffset = 0\<close>, and without zoom zones its height is
  \<open>max(MIN_ITEM_HEIGHT, 3 * pixelsPerMonth)\<close>.
\<close>

theorem present_entry_in_april:
  assumes "properDate (Date 2023 3 d ms)" and "0 < ppm"
    and "startDate it = ''2023-01''" and "endDate it = ''present''"
  shows "getMonthsDuration (Date 2023 3 d ms) (startDate it) (endDate it) = Num 3 \<and>
    visualStart (Date 2023 3 d ms) (tb_minDate (timelineBounds (Date 2023 3 d ms) [it])) it = Num 0 \<and>
    visualEnd (Date 2023 3 d ms) (tb_minDate (timelineBounds (Date 2023 3 d ms) [it]))
      (minVisualMonths ppm) it = Num (max (MIN_ITEM_HEIGHT / ppm) 3) \<and>
    itemLayouts (Date 2023 3 d ms) [it] ppm (item_id it) =
      Some \<lparr>column = 0, localColumnCount = 1, localColumnOffset = 0\<rparr> \<and>
    height (itemStyle (Date 2023 3 d ms) [it] ppm [] isReversed it) = max MIN_ITEM_HEIGHT (3 * ppm)"
  using assms by (rule april_entry)

lemma exPresent_fields:
  "item_id exPresent = ''a''" "startDate exPresent = ''2023-01''" "endDate exPresent = ''present''"
  by (simp_all add: exPresent_def entry_def)

lemma april_15_proper: "properDate (Date 2023 3 15 0)"
  by (simp add: calendar_defs)

theorem present_entry_in_april_witness:
  "properDate (Date 2023 3 15 0) \<and> (0::rat) < 16 \<and>
   startDate exPresent = ''2023-01'' \<and> endDate exPresent = ''present'' \<and>
   getMonthsDuration (Date 2023 3 15 0) (startDate exPresent) (endDate exPresent) = Num 3 \<and>
   itemLayouts (Date 2023 3 15 0) [exPresent] 16 (item_id exPresent) =
     Some \<lparr>column = 0, localColumnCount = 1, localColumnOffset = 0\<rparr> \<and>
   height (itemStyle (Date 2023 3 15 0) [exPresent] 16 [] False exPresent) = 60"
proof -
  have 1: "(0::rat) < 16" by simp
  from present_entry_in_april [OF april_15_proper 1 exPresent_fields(2,3), of False]
    april_15_proper exPresent_fields(2,3)
  show ?thesis by (simp add: MIN_ITEM_HEIGHT_def)
qed

text \<open>
  C2 as stated fails: at the default scale of 16 pixels per month the duration of
  the entry is 3 months, not 4, and its height is 60 pixels, not
  \<open>max(MIN_ITEM_HEIGHT, 4 * 16) = 64\<close>.
\<close>

theorem present_entry_four_months_counterexample:
  "getMonthsDuration (Date 2023 3 15 0) (startDate exPresent) (endDate exPresent) = Num 3 \<and>
   getMonthsDuration (Date 2023 3 15 0) (startDate exPresent) (endDate exPresent) \<noteq> Num 4 \<and>
   height (itemStyle (Date 2023 3 15 0) [exPresent] DEFAULT_PIXELS_PER_MONTH [] False exPresent)
     = 60 \<and>
   height (itemStyle (Date 2023 3 15 0) [exPresent] DEFAULT_PIXELS_PER_MONTH [] False exPresent)
     \<noteq> max MIN_ITEM_HEIGHT (4 * DEFAULT_PIXELS_PER_MONTH)"
proof -
  have 1: "(0::rat) < 16" by simp
  from april_entry [OF april_15_proper 1 exPresent_fields(2,3), of False]
  show ?thesis by (simp add: MIN_ITEM_HEIGHT_def DEFAULT_PIXELS_PER_MONTH_def)
qed

subsection \<open>Time values and months\<close>

lemma div_succ_int:
  fixes a n :: int
  assumes "1 < n"
  shows "(a + 1) div n = a div n + (if (a + 1) mod n = 0 then 1 else 0)"
proof -
  have r: "0 \<le> a mod n" "a mod n < n" using assms by simp_all
  have "(a + 1) div n = a div n + 1 div n + (a mod n + 1 mod n) div n"
    by (rule div_add1_eq)
  moreover have "1 div n = 0" "1 mod n = 1" using assms by simp_all
  ultimately have 1: "(a + 1) div n = a div n + (a mod n + 1) div n" by simp
  have 2: "(a + 1) mod n = (a mod n + 1) mod n" by (simp add: mod_add_left_eq)
  show ?thesis
  proof (cases "a mod n + 1 = n")
    case True
    then show ?thesis using 1 2 assms by simp
  next
    case False
    with r have "a mod n + 1 < n" "0 \<le> a mod n + 1" by simp_all
    then have "(a mod n + 1) div n = 0" "(a mod n + 1) mod n = a mod n + 1" by simp_all
    then show ?thesis using 1 2 r by simp
  qed
qed

lemma leap_shift:
  "((y::int) - 1968) mod 4 = y mod 4" "(y - 1900) mod 100 = y mod 100"
  "(y - 1600) mod 400 = y mod 400"
proof -
  have "(y - 1968) mod 4 = (y + 4 * (- 492)) mod 4" by simp
  then show "(y - 1968) mod 4 = y mod 4" by (simp only: mod_mult_self2)
  have "(y - 1900) mod 100 = (y + 100 * (- 19)) mod 100" by simp
  then show "(y - 1900) mod 100 = y mod 100" by (simp only: mod_mult_self2)
  have "(y - 1600) mod 400 = (y + 400 * (- 4)) mod 400" by simp
  then show "(y - 1600) mod 400 = y mod 400" by (simp only: mod_mult_self2)
qed

lemma leap_divisors:
  "(y::int) mod 100 = 0 \<Longrightarrow> y mod 4 = 0" "y mod 400 = 0 \<Longrightarrow> y mod 100 = 0"
proof -
  have "y mod 100 mod 4 = y mod 4" by (rule mod_mod_cancel) simp
  then show "y mod 100 = 0 \<Longrightarrow> y mod 4 = 0" by simp
  have "y mod 400 mod 100 = y mod 100" by (rule mod_mod_cancel) simp
  then show "y mod 400 = 0 \<Longrightarrow> y mod 100 = 0" by simp
qed

lemma DayFromYear_Suc: "DayFromYear (y + 1) = DayFromYear y + DaysInYear y"
proof -
  have d4: "(y - 1968) div 4 = (y - 1969) div 4 + (if y mod 4 = 0 then 1 else 0)"
    using div_succ_int [of 4 "y - 1969"] by (simp add: leap_shift)
  have d100: "(y - 1900) div 100 = (y - 1901) div 100 + (if y mod 100 = 0 then 1 else 0)"
    using div_succ_int [of 100 "y - 1901"] by (simp add: leap_shift)
  have d400: "(y - 1600) div 400 = (y - 1601) div 400 + (if y mod 400 = 0 then 1 else 0)"
    using div_succ_int [of 400 "y - 1601"] by (simp add: leap_shift)
  have "DayFromYear (y + 1) =
      365 * (y - 1969) + (y - 1968) div 4 - (y - 1900) div 100 + (y - 1600) div 400"
    by (simp add: DayFromYear_def)
  also have "\<dots> = DayFromYear y + DaysInYear y"
    unfolding d4 d100 d400 using leap_divisors [of y]
    by (simp add: DayFromYear_def DaysInYear_def)
  finally show ?thesis .
qed

lemma DaysBeforeMonth_Suc:
  assumes "0 \<le> m" and "m \<le> 10"
  shows "DaysBeforeMonth y (m + 1) = DaysBeforeMonth y m + DaysInMonth y m"
proof -
  from assms have "m = 0 \<or> m = 1 \<or> m = 2 \<or> m = 3 \<or> m = 4 \<or> m = 5 \<or> m = 6 \<or> m = 7 \<or> m = 8
      \<or> m = 9 \<or> m = 10" by arith
  then show ?thesis
    by (elim disjE) (simp_all add: DaysBeforeMonth_def DaysInMonth_def)
qed

lemma DaysBeforeMonth_December: "DaysBeforeMonth y 11 + DaysInMonth y 11 = DaysInYear y"
  by (simp add: DaysBeforeMonth_def DaysInMonth_def)

lemma month_index_split:
  assumes "0 \<le> m" and "m \<le> 11"
  shows "(12 * y + m) div 12 = y" and "(12 * y + m) mod 12 = (m::int)"
proof -
  have "(m + 12 * y) div 12 = y + m div 12" by (rule div_mult_self2) simp
  moreover have "(m + 12 * y) mod 12 = m mod 12" by (rule mod_mult_self2)
  moreover from assms have "m div 12 = 0" "m mod 12 = m" by simp_all
  ultimately show "(12 * y + m) div 12 = y" and "(12 * y + m) mod 12 = m"
    by (simp_all add: add.commute)
qed

lemma monthStart_Suc: "monthStart (k + 1) = monthStart k + DaysInMonth (k div 12) (k mod 12)"
proof -
  have r: "0 \<le> k mod 12" "k mod 12 < 12" by simp_all
  have d: "(k + 1) div 12 = k div 12 + (if (k + 1) mod 12 = 0 then 1 else 0)"
    by (rule div_succ_int) simp
  have m: "(k + 1) mod 12 = (k mod 12 + 1) mod 12" by (simp add: mod_add_left_eq)
  show ?thesis
  proof (cases "k mod 12 = 11")
    case True
    with m have "(k + 1) mod 12 = 0" by simp
    with d have "(k + 1) div 12 = k div 12 + 1" by simp
    with \<open>(k + 1) mod 12 = 0\<close> show ?thesis
      using True DaysBeforeMonth_December [of "k div 12"]
      by (simp add: monthStart_def DayFromYear_Suc DaysBeforeMonth_def)
  next
    case False
    with r have le: "k mod 12 \<le> 10" by simp
    then have "(k mod 12 + 1) mod 12 = k mod 12 + 1" using r(1) by simp
    with m have m': "(k + 1) mod 12 = k mod 12 + 1" by simp
    with r(1) have "(k + 1) mod 12 \<noteq> 0" by simp
    with d have "(k + 1) div 12 = k div 12" by simp
    with m' show ?thesis
      using r(1) le by (simp add: monthStart_def DaysBeforeMonth_Suc)
  qed
qed

lemma monthStart_mono:
  "k < k' \<Longrightarrow> monthStart k + DaysInMonth (k div 12) (k mod 12) \<le> monthStart k'"
proof (induction k' rule: int_gr_induct)
  case base
  then show ?case by (simp add: monthStart_Suc)
next
  case (step i)
  have "0 \<le> DaysInMonth (i div 12) (i mod 12)"
    using DaysInMonth_ge [of "i div 12" "i mod 12"] by simp
  with step.IH show ?case by (simp add: monthStart_Suc)
qed

lemma timeValue_monthStart:
  "0 \<le> m \<Longrightarrow> m \<le> 11 \<Longrightarrow> timeValue y m d ms = (monthStart (12 * y + m) + (d - 1)) * msPerDay + ms"
proof -
  assume "0 \<le> m" "m \<le> 11"
  then have "(12 * y + m) div 12 = y" "(12 * y + m) mod 12 = m"
    by (rule month_index_split)+
  then show ?thesis by (simp add: timeValue_def monthStart_def)
qed

lemma time_less_of_month_less:
  assumes "properDate (Date y m d ms)" and "properDate (Date y' m' d' ms')"
    and "12 * y + m < 12 * y' + m'"
  shows "timeValue y m d ms < timeValue y' m' d' ms'"
proof -
  from assms(1) have a: "0 \<le> m" "m \<le> 11" "d \<le> DaysInMonth y m" "ms < msPerDay" by simp_all
  from assms(2) have b: "0 \<le> m'" "m' \<le> 11" "1 \<le> d'" "0 \<le> ms'" by simp_all
  from a(1,2) have dm: "(12 * y + m) div 12 = y" "(12 * y + m) mod 12 = m"
    by (rule month_index_split)+
  from monthStart_mono [OF assms(3)] dm a(3)
  have "monthStart (12 * y + m) + (d - 1) + 1 \<le> monthStart (12 * y' + m') + (d' - 1)"
    using b(3) by simp
  then have "(monthStart (12 * y + m) + (d - 1) + 1) * msPerDay \<le>
      (monthStart (12 * y' + m') + (d' - 1)) * msPerDay"
    by (simp add: msPerDay_def)
  then have "(monthStart (12 * y + m) + (d - 1)) * msPerDay + ms <
      (monthStart (12 * y' + m') + (d' - 1)) * msPerDay + ms'"
    using a(4) b(4) by (simp add: algebra_simps)
  then show ?thesis
    by (simp add: timeValue_monthStart a b)
qed

lemma month_le_of_time_le:
  assumes "properDate (Date y m d ms)" and "properDate (Date y' m' d' ms')"
    and "timeValue y m d ms \<le> timeValue y' m' d' ms'"
  shows "12 * y + m \<le> 12 * y' + m'"
  using time_less_of_month_less [OF assms(2,1)] assms(3) by (cases "12 * y' + m' < 12 * y + m") auto

lemma getTime_timeOf: "a \<noteq> InvalidDate \<Longrightarrow> getTime a = Num (of_int (timeOf a))"
  by (cases a) simp_all

lemma monthsBetween_monthNumber:
  "a \<noteq> InvalidDate \<Longrightarrow> b \<noteq> InvalidDate \<Longrightarrow>
     monthsBetween a b = Num (of_int (monthNumber b - monthNumber a))"
  by (cases a; cases b) (simp_all add: monthsBetween_def algebra_simps)

lemma properDate_valid: "properDate a \<Longrightarrow> a \<noteq> InvalidDate"
  by (cases a) simp_all

lemma time_less_of_monthNumber_less:
  "properDate a \<Longrightarrow> properDate b \<Longrightarrow> monthNumber a < monthNumber b \<Longrightarrow> timeOf a < timeOf b"
proof (cases a; cases b)
  fix y m d ms y' m' d' ms'
  assume "properDate a" "properDate b" "monthNumber a < monthNumber b"
    and a: "a = Date y m d ms" and b: "b = Date y' m' d' ms'"
  then show ?thesis
    using time_less_of_month_less [of y m d ms y' m' d' ms'] by simp
qed simp_all

lemma monthNumber_le_of_time_le:
  assumes "properDate a" and "properDate b" and "timeOf a \<le> timeOf b"
  shows "monthNumber a \<le> monthNumber b"
proof (rule ccontr)
  assume "\<not> monthNumber a \<le> monthNumber b"
  then have "monthNumber b < monthNumber a" by simp
  from time_less_of_monthNumber_less [OF assms(2,1) this] assms(3) show False by simp
qed

lemma TimeClip_cases:
  "TimeClip y m d ms = InvalidDate \<or>
   (TimeClip y m d ms = Date y m d ms \<and> \<bar>timeValue y m d ms\<bar> \<le> 8640000000000000)"
  by (simp add: TimeClip_def)

lemma MakeDate_cases:
  assumes "1 \<le> d" and "d \<le> 31" and "0 \<le> ms" and "ms < msPerDay"
  shows "MakeDate y mm d ms = InvalidDate \<or>
    (\<exists>y2 m2 d2. MakeDate y mm d ms = Date y2 m2 d2 ms \<and> properDate (Date y2 m2 d2 ms) \<and>
       12 * y2 + m2 = 12 * y + mm +
         (if d \<le> DaysInMonth (y + mm div 12) (mm mod 12) then 0 else 1))"
proof -
  define ym where "ym = y + mm div 12"
  define mn where "mn = mm mod 12"
  have mn: "0 \<le> mn" "mn \<le> 11" by (simp_all add: mn_def)
  have idx: "12 * ym + mn = 12 * y + mm" by (simp add: ym_def mn_def)
  have dim: "28 \<le> DaysInMonth ym mn" by (rule DaysInMonth_ge)
  show ?thesis
  proof (cases "d \<le> DaysInMonth ym mn")
    case True
    then have eq: "MakeDate y mm d ms = TimeClip ym mn d ms"
      by (simp add: MakeDate_def ym_def mn_def Let_def)
    from TimeClip_cases [of ym mn d ms] show ?thesis
    proof
      assume "TimeClip ym mn d ms = InvalidDate"
      then show ?thesis by (simp add: eq)
    next
      assume "TimeClip ym mn d ms = Date ym mn d ms \<and> \<bar>timeValue ym mn d ms\<bar> \<le> 8640000000000000"
      then have "MakeDate y mm d ms = Date ym mn d ms \<and> properDate (Date ym mn d ms) \<and>
          12 * ym + mn = 12 * y + mm + (if d \<le> DaysInMonth ym mn then 0 else 1)"
        using True mn assms idx by (simp add: eq)
      then show ?thesis unfolding ym_def mn_def by blast
    qed
  next
    case False
    define d2 where "d2 = d - DaysInMonth ym mn"
    from False dim assms(2) have d2: "1 \<le> d2" "d2 \<le> 3" by (simp_all add: d2_def)
    show ?thesis
    proof (cases "mn = 11")
      case True
      then have eq: "MakeDate y mm d ms = TimeClip (ym + 1) 0 d2 ms"
        using False by (simp add: MakeDate_def ym_def mn_def d2_def Let_def)
      have dim2: "d2 \<le> DaysInMonth (ym + 1) 0" using d2 DaysInMonth_ge [of "ym + 1" 0] by simp
      from TimeClip_cases [of "ym + 1" 0 d2 ms] show ?thesis
      proof
        assume "TimeClip (ym + 1) 0 d2 ms = InvalidDate"
        then show ?thesis by (simp add: eq)
      next
        assume "TimeClip (ym + 1) 0 d2 ms = Date (ym + 1) 0 d2 ms \<and>
          \<bar>timeValue (ym + 1) 0 d2 ms\<bar> \<le> 8640000000000000"
        then have "MakeDate y mm d ms = Date (ym + 1) 0 d2 ms \<and> properDate (Date (ym + 1) 0 d2 ms) \<and>
            12 * (ym + 1) + 0 = 12 * y + mm + (if d \<le> DaysInMonth ym mn then 0 else 1)"
          using False True d2 dim2 assms idx by (simp add: eq)
        then show ?thesis unfolding ym_def mn_def by blast
      qed
    next
      case mn11: False
      then have eq: "MakeDate y mm d ms = TimeClip ym (mn + 1) d2 ms"
        using False by (simp add: MakeDate_def ym_def mn_def d2_def Let_def)
      have dim2: "d2 \<le> DaysInMonth ym (mn + 1)" using d2 DaysInMonth_ge [of ym "mn + 1"] by simp
      from TimeClip_cases [of ym "mn + 1" d2 ms] show ?thesis
      proof
        assume "TimeClip ym (mn + 1) d2 ms = InvalidDate"
        then show ?thesis by (simp add: eq)
      next
        assume "TimeClip ym (mn + 1) d2 ms = Date ym (mn + 1) d2 ms \<and>
          \<bar>timeValue ym (mn + 1) d2 ms\<bar> \<le> 8640000000000000"
        then have "MakeDate y mm d ms = Date ym (mn + 1) d2 ms \<and> properDate (Date ym (mn + 1) d2 ms) \<and>
            12 * ym + (mn + 1) = 12 * y + mm + (if d \<le> DaysInMonth ym mn then 0 else 1)"
          using False mn11 mn d2 dim2 assms idx by (simp add: eq)
        then show ?thesis unfolding ym_def mn_def by blast
      qed
    qed
  qed
qed

lemma MakeDate_proper:
  assumes "1 \<le> d" and "d \<le> 31" and "0 \<le> ms" and "ms < msPerDay"
  shows "MakeDate y mm d ms = InvalidDate \<or> properDate (MakeDate y mm d ms)"
  using MakeDate_cases [OF assms, of y mm] by auto

lemma Date_new_proper: "Date_new a b = InvalidDate \<or> properDate (Date_new a b)"
proof (cases a; cases b)
  fix y m assume "a = Num y" "b = Num m"
  then show ?thesis
    using MakeDate_proper [of 1 0] by (simp add: Let_def msPerDay_def)
qed simp_all

lemma dateOfFields_proper: "dateOfFields s = InvalidDate \<or> properDate (dateOfFields s)"
  unfolding dateOfFields_def
  by (simp split: list.split add: Date_new_proper)

lemma DaysInMonth_le: "DaysInMonth y m \<le> 31"
  by (simp add: DaysInMonth_def DaysInYear_def)

lemma setMonth_future:
  assumes "properDate (Date y m d ms)"
  shows "setMonth (Date y m d ms) (js_add (getMonth (Date y m d ms)) (Num 6)) = MakeDate y (m + 6) d ms"
proof -
  have "js_trunc (of_int (m + 6)) = m + 6" by (rule js_trunc_of_int)
  then show ?thesis by simp
qed

lemma parseDate_proper:
  "properDate now \<Longrightarrow> parseDate now s = InvalidDate \<or> properDate (parseDate now s)"
  using dateOfFields_proper [of s] by (simp add: parseDate_def)

lemma parseDateForBounds_proper:
  assumes "properDate now"
  shows "parseDateForBounds now s = InvalidDate \<or> properDate (parseDateForBounds now s)"
proof (cases now)
  case InvalidDate
  with assms show ?thesis by simp
next
  case (Date y m d ms)
  with assms have "1 \<le> d" "d \<le> 31" "0 \<le> ms" "ms < msPerDay"
    using DaysInMonth_le [of y m] by simp_all
  from MakeDate_proper [OF this, of y "m + 6"] setMonth_future [of y m d ms] assms Date
    dateOfFields_proper [of s]
  show ?thesis by (simp add: parseDateForBounds_def del: setMonth.simps getMonth.simps)
qed

subsection \<open>The bounds of a timeline whose dates resolve\<close>

lemma later_valid:
  "a \<noteq> InvalidDate \<Longrightarrow> x \<noteq> InvalidDate \<Longrightarrow> later a x = (if timeOf a < timeOf x then x else a)"
  by (cases a; cases x) simp_all

lemma earlier_valid:
  "a \<noteq> InvalidDate \<Longrightarrow> x \<noteq> InvalidDate \<Longrightarrow> earlier a x = (if timeOf x < timeOf a then x else a)"
  by (cases a; cases x) simp_all

lemma fold_later_valid:
  assumes "acc \<noteq> InvalidDate" and "InvalidDate \<notin> set ds"
  shows "fold (\<lambda>x acc. later acc x) ds acc \<in> insert acc (set ds) \<and>
         (\<forall>d \<in> insert acc (set ds). timeOf d \<le> timeOf (fold (\<lambda>x acc. later acc x) ds acc))"
  using assms
proof (induction ds arbitrary: acc)
  case Nil
  then show ?case by simp
next
  case (Cons x xs)
  then have x: "x \<noteq> InvalidDate" and xs: "InvalidDate \<notin> set xs" by auto
  let ?a = "later acc x"
  have a: "?a = (if timeOf acc < timeOf x then x else acc)"
    using Cons.prems(1) x by (rule later_valid)
  then have "?a \<noteq> InvalidDate" using Cons.prems(1) x by simp
  from Cons.IH [OF this xs] have
    mem: "fold (\<lambda>x acc. later acc x) xs ?a \<in> insert ?a (set xs)" and
    ub: "\<And>d. d \<in> insert ?a (set xs) \<Longrightarrow> timeOf d \<le> timeOf (fold (\<lambda>x acc. later acc x) xs ?a)"
    by blast+
  from ub [of ?a] a have "timeOf acc \<le> timeOf (fold (\<lambda>x acc. later acc x) xs ?a)"
    "timeOf x \<le> timeOf (fold (\<lambda>x acc. later acc x) xs ?a)"
    by (simp_all split: if_splits)
  moreover from mem a have "fold (\<lambda>x acc. later acc x) xs ?a \<in> insert acc (set (x # xs))"
    by (auto split: if_splits)
  ultimately show ?case using ub by auto
qed

lemma fold_earlier_valid:
  assumes "acc \<noteq> InvalidDate" and "InvalidDate \<notin> set ds"
  shows "fold (\<lambda>x acc. earlier acc x) ds acc \<in> insert acc (set ds) \<and>
         (\<forall>d \<in> insert acc (set ds). timeOf (fold (\<lambda>x acc. earlier acc x) ds acc) \<le> timeOf d)"
  using assms
proof (induction ds arbitrary: acc)
  case Nil
  then show ?case by simp
next
  case (Cons x xs)
  then have x: "x \<noteq> InvalidDate" and xs: "InvalidDate \<notin> set xs" by auto
  let ?a = "earlier acc x"
  have a: "?a = (if timeOf x < timeOf acc then x else acc)"
    using Cons.prems(1) x by (rule earlier_valid)
  then have "?a \<noteq> InvalidDate" using Cons.prems(1) x by simp
  from Cons.IH [OF this xs] have
    mem: "fold (\<lambda>x acc. earlier acc x) xs ?a \<in> insert ?a (set xs)" and
    lb: "\<And>d. d \<in> insert ?a (set xs) \<Longrightarrow> timeOf (fold (\<lambda>x acc. earlier acc x) xs ?a) \<le> timeOf d"
    by blast+
  from lb [of ?a] a have "timeOf (fold (\<lambda>x acc. earlier acc x) xs ?a) \<le> timeOf acc"
    "timeOf (fold (\<lambda>x acc. earlier acc x) xs ?a) \<le> timeOf x"
    by (simp_all split: if_splits)
  moreover from mem a have "fold (\<lambda>x acc. earlier acc x) xs ?a \<in> insert acc (set (x # xs))"
    by (auto split: if_splits)
  ultimately show ?case using lb by auto
qed

lemma Date_of_max_valid:
  assumes "ds \<noteq> []" and "InvalidDate \<notin> set ds"
  shows "Date_of_max ds \<in> set ds \<and> (\<forall>d \<in> set ds. timeOf d \<le> timeOf (Date_of_max ds))"
proof (cases ds)
  case Nil
  with assms show ?thesis by simp
next
  case (Cons x xs)
  with assms have "x \<noteq> InvalidDate" "InvalidDate \<notin> set xs" by auto
  from fold_later_valid [OF this] show ?thesis by (simp add: Cons)
qed

lemma Date_of_min_valid:
  assumes "ds \<noteq> []" and "InvalidDate \<notin> set ds"
  shows "Date_of_min ds \<in> set ds \<and> (\<forall>d \<in> set ds. timeOf (Date_of_min ds) \<le> timeOf d)"
proof (cases ds)
  case Nil
  with assms show ?thesis by simp
next
  case (Cons x xs)
  with assms have "x \<noteq> InvalidDate" "InvalidDate \<notin> set xs" by auto
  from fold_earlier_valid [OF this] show ?thesis by (simp add: Cons)
qed

lemma timelineBounds_nonempty:
  "items \<noteq> [] \<Longrightarrow> timelineBounds now items =
     \<lparr>tb_minDate = Date_of_min (allDates now items), tb_maxDate = Date_of_max (allDates now items),
      tb_totalMonths = js_add (monthsBetween (Date_of_min (allDates now items))
                                (Date_of_max (allDates now items))) (Num 1)\<rparr>"
  by (simp add: timelineBounds_def allDates_def Let_def)

lemma allDates_proper:
  assumes "properDate now" and "InvalidDate \<notin> set (allDates now items)" and "x \<in> set (allDates now items)"
  shows "properDate x"
proof -
  from assms(3) have "\<exists>it::ResumeItem. x = parseDate now (startDate it) \<or> x = parseDateForBounds now (endDate it)"
    unfolding allDates_def set_append set_map by blast
  then obtain it :: ResumeItem
    where "x = parseDate now (startDate it) \<or> x = parseDateForBounds now (endDate it)"
    by blast
  moreover from assms(2,3) have "x \<noteq> InvalidDate" by metis
  ultimately show ?thesis
    using parseDate_proper [OF assms(1), of "startDate it"]
      parseDateForBounds_proper [OF assms(1), of "endDate it"] by auto
qed

lemma exFuture_fields:
  "item_id exFuture = ''f''" "startDate exFuture = ''2023-01''" "endDate exFuture = ''future''"
  by (simp_all add: exFuture_def entry_def)

lemma october_15: "MakeDate 2023 9 15 0 = Date 2023 9 15 0"
proof -
  have "MakeDate 2023 9 15 0 = TimeClip 2023 9 15 0"
    by (rule MakeDate_in_range) (simp_all add: DaysInMonth_def)
  then show ?thesis by (simp add: TimeClip_def calendar_defs)
qed

lemma exFuture_bound:
  "parseDateForBounds (Date 2023 3 15 0) ''future'' = Date 2023 9 15 0"
proof -
  have "parseDateForBounds (Date 2023 3 15 0) ''future'' =
      setMonth (Date 2023 3 15 0) (js_add (getMonth (Date 2023 3 15 0)) (Num 6))"
    by (simp add: parseDateForBounds_def del: setMonth.simps getMonth.simps)
  also have "\<dots> = MakeDate 2023 (3 + 6) 15 0"
    by (rule setMonth_future [OF april_15_proper])
  finally show ?thesis by (simp add: october_15)
qed

lemma exFuture_bounds:
  "timelineBounds (Date 2023 3 15 0) [exFuture] =
     \<lparr>tb_minDate = Date 2023 0 1 0, tb_maxDate = Date 2023 9 15 0, tb_totalMonths = Num 10\<rparr>"
proof -
  have t: "timeValue 2023 0 1 0 < timeValue 2023 9 15 0" by (simp add: calendar_defs)
  then have t': "\<not> timeValue 2023 9 15 0 < timeValue 2023 0 1 0" by simp
  show ?thesis
    by (simp add: timelineBounds_def exFuture_fields exFuture_bound parseDate_def parse_examples
        monthsBetween_def t t' Let_def)
qed

text \<open>
  C8. An entry whose end date is \<^verbatim>\<open>"future"\<close>, in a timeline whose dates all
  resolve, evaluated at any proper moment \<open>now\<close>: the end resolves for the bounds
  to \<open>now\<close> plus 6 months, that is \<^verbatim>\<open>setMonth(getMonth() + 6)\<close> on \<open>now\<close>;
  \<open>isFutureDate\<close> is true; the bound lies after \<open>now\<close>; \<open>maxDate\<close> is at
  least the bound and \<open>totalMonths\<close> covers its month. The bound keeps the day
  of month and the time of \<open>now\<close> and lies 6 months after the month of \<open>now\<close>;
  when that month has no such day (from 31 August, say), JavaScript carries the
  days in excess into the month after, which is then the 7th.
\<close>

theorem future_end_extends_bounds:
  assumes now: "properDate (Date y m d ms)" and e: "e \<in> set items" and fut: "endDate e = ''future''"
    and valid: "tb_maxDate (timelineBounds (Date y m d ms) items) \<noteq> InvalidDate"
  shows "parseDateForBounds (Date y m d ms) (endDate e) =
           setMonth (Date y m d ms) (js_add (getMonth (Date y m d ms)) (Num 6)) \<and>
         isFutureDate (Date y m d ms) (endDate e) \<and>
         monthsBetween (Date y m d ms) (parseDateForBounds (Date y m d ms) (endDate e)) =
           Num (if d \<le> DaysInMonth (y + (m + 6) div 12) ((m + 6) mod 12) then 6 else 7) \<and>
         js_lt (getTime (Date y m d ms)) (getTime (parseDateForBounds (Date y m d ms) (endDate e))) \<and>
         js_le (getTime (parseDateForBounds (Date y m d ms) (endDate e)))
               (getTime (tb_maxDate (timelineBounds (Date y m d ms) items))) \<and>
         js_le (js_add (monthsBetween (tb_minDate (timelineBounds (Date y m d ms) items))
                          (parseDateForBounds (Date y m d ms) (endDate e))) (Num 1))
               (tb_totalMonths (timelineBounds (Date y m d ms) items))"
proof -
  let ?now = "Date y m d ms"
  define bound where "bound = parseDateForBounds ?now (endDate e)"
  let ?all = "allDates ?now items"
  from e have ne: "items \<noteq> []" by auto
  note tb = timelineBounds_nonempty [OF ne, of ?now]
  from valid have "Date_of_max ?all \<noteq> InvalidDate" by (simp add: tb)
  then have inv: "InvalidDate \<notin> set ?all" using Date_of_max_invalid by blast
  from e have ne': "?all \<noteq> []" by (auto simp: allDates_def)
  have mem: "bound \<in> set ?all" using e by (auto simp: allDates_def bound_def)
  with inv have bv: "bound \<noteq> InvalidDate" by metis
  have b1: "bound = setMonth ?now (js_add (getMonth ?now) (Num 6))"
    by (simp add: bound_def fut parseDateForBounds_def del: setMonth.simps getMonth.simps)
  have b2: "bound = MakeDate y (m + 6) d ms"
    unfolding b1 by (rule setMonth_future [OF now])
  from now have "1 \<le> d" "d \<le> 31" "0 \<le> ms" "ms < msPerDay"
    using DaysInMonth_le [of y m] by simp_all
  from MakeDate_cases [OF this, of y "m + 6"] bv b2
  obtain y2 m2 d2 where b3: "bound = Date y2 m2 d2 ms" and bp: "properDate (Date y2 m2 d2 ms)"
    and idx: "12 * y2 + m2 = 12 * y + (m + 6) +
         (if d \<le> DaysInMonth (y + (m + 6) div 12) ((m + 6) mod 12) then 0 else 1)"
    by auto
  have months: "monthsBetween ?now bound =
      Num (if d \<le> DaysInMonth (y + (m + 6) div 12) ((m + 6) mod 12) then 6 else 7)"
  proof -
    have "monthsBetween ?now bound = Num (of_int (12 * y2 + m2 - (12 * y + m)))"
      by (simp add: b3 monthsBetween_monthNumber)
    also have "12 * y2 + m2 - (12 * y + m) =
        (if d \<le> DaysInMonth (y + (m + 6) div 12) ((m + 6) mod 12) then 6 else 7)"
      using idx by simp
    finally show ?thesis by simp
  qed
  have "monthNumber ?now < monthNumber bound" using idx by (simp add: b3)
  from time_less_of_monthNumber_less [OF now _ this] bp
  have after: "js_lt (getTime ?now) (getTime bound)" by (simp add: b3)
  from Date_of_max_valid [OF ne' inv] mem
  have maxmem: "Date_of_max ?all \<in> set ?all" and le: "timeOf bound \<le> timeOf (Date_of_max ?all)"
    by blast+
  from Date_of_min_valid [OF ne' inv]
  have minmem: "Date_of_min ?all \<in> set ?all" by blast
  have maxp: "properDate (Date_of_max ?all)" and minp: "properDate (Date_of_min ?all)"
    using allDates_proper [OF now inv] maxmem minmem by blast+
  have reach: "js_le (getTime bound) (getTime (Date_of_max ?all))"
    using le bv properDate_valid [OF maxp] by (simp add: getTime_timeOf)
  have "monthNumber bound \<le> monthNumber (Date_of_max ?all)"
    using monthNumber_le_of_time_le [OF _ maxp le] bp b3 by simp
  then have total: "js_le (js_add (monthsBetween (Date_of_min ?all) bound) (Num 1))
      (js_add (monthsBetween (Date_of_min ?all) (Date_of_max ?all)) (Num 1))"
    using bv properDate_valid [OF maxp] properDate_valid [OF minp]
    by (simp add: monthsBetween_monthNumber)
  have fd: "isFutureDate ?now (endDate e)" by (simp add: isFutureDate_def fut)
  show ?thesis
    using b1 fd months after reach total unfolding bound_def [symmetric] tb by simp
qed

theorem future_end_extends_bounds_witness:
  "properDate (Date 2023 3 15 0) \<and> exFuture \<in> set [exFuture] \<and> endDate exFuture = ''future'' \<and>
   tb_maxDate (timelineBounds (Date 2023 3 15 0) [exFuture]) \<noteq> InvalidDate \<and>
   parseDateForBounds (Date 2023 3 15 0) (endDate exFuture) =
     setMonth (Date 2023 3 15 0) (js_add (getMonth (Date 2023 3 15 0)) (Num 6)) \<and>
   isFutureDate (Date 2023 3 15 0) (endDate exFuture) \<and>
   monthsBetween (Date 2023 3 15 0) (parseDateForBounds (Date 2023 3 15 0) (endDate exFuture)) =
     Num (if 15 \<le> DaysInMonth (2023 + (3 + 6) div 12) ((3 + 6) mod 12) then 6 else 7) \<and>
   js_lt (getTime (Date 2023 3 15 0))
     (getTime (parseDateForBounds (Date 2023 3 15 0) (endDate exFuture))) \<and>
   js_le (getTime (parseDateForBounds (Date 2023 3 15 0) (endDate exFuture)))
     (getTime (tb_maxDate (timelineBounds (Date 2023 3 15 0) [exFuture]))) \<and>
   js_le (js_add (monthsBetween (tb_minDate (timelineBounds (Date 2023 3 15 0) [exFuture]))
                    (parseDateForBounds (Date 2023 3 15 0) (endDate exFuture))) (Num 1))
     (tb_totalMonths (timelineBounds (Date 2023 3 15 0) [exFuture])) \<and>
   parseDateForBounds (Date 2023 3 15 0) ''future'' = Date 2023 9 15 0"
proof -
  have 1: "exFuture \<in> set [exFuture]" by simp
  have 2: "tb_maxDate (timelineBounds (Date 2023 3 15 0) [exFuture]) \<noteq> InvalidDate"
    by (simp add: exFuture_bounds)
  from future_end_extends_bounds [OF april_15_proper 1 exFuture_fields(3) 2]
    april_15_proper 1 exFuture_fields(3) 2 exFuture_bound
  show ?thesis by blast
qed

subsection \<open>The order of the first pass\<close>

lemma byStartDate_valid:
  assumes "parseDate now (startDate x) \<noteq> InvalidDate" and "parseDate now (startDate y) \<noteq> InvalidDate"
  shows "js_gt (byStartDate now x y) (Num 0) \<longleftrightarrow> \<not> startTime now x \<le> startTime now y"
  using assms by (auto simp: byStartDate_def getTime_timeOf js_gt_def startTime_def)

lemma insertBy_insort_key:
  assumes "parseDate now (startDate x) \<noteq> InvalidDate"
    and "\<forall>y \<in> set ys. parseDate now (startDate y) \<noteq> InvalidDate"
  shows "insertBy (byStartDate now) x ys = insort_key (startTime now) x ys"
  using assms(2)
proof (induction ys)
  case Nil
  then show ?case by simp
next
  case (Cons y ys)
  then have "parseDate now (startDate y) \<noteq> InvalidDate" by simp
  from byStartDate_valid [OF assms(1) this] Cons show ?case by simp
qed

lemma Array_sort_sort_key:
  assumes "\<forall>e \<in> set items. parseDate now (startDate e) \<noteq> InvalidDate"
  shows "Array_sort (byStartDate now) items = sort_key (startTime now) items"
  using assms
proof (induction items)
  case Nil
  then show ?case by simp
next
  case (Cons x xs)
  then have "Array_sort (byStartDate now) xs = sort_key (startTime now) xs" by simp
  moreover have "\<forall>y \<in> set (sort_key (startTime now) xs). parseDate now (startDate y) \<noteq> InvalidDate"
    using Cons.prems by simp
  ultimately show ?case
    using Cons.prems by (simp add: insertBy_insort_key)
qed

lemma getTime_le_iff:
  "a \<noteq> InvalidDate \<Longrightarrow> b \<noteq> InvalidDate \<Longrightarrow> js_le (getTime a) (getTime b) \<longleftrightarrow> timeOf a \<le> timeOf b"
  by (simp add: getTime_timeOf)

lemma getTime_eq_iff:
  "a \<noteq> InvalidDate \<Longrightarrow> getTime a = t \<longleftrightarrow> (t = Num (of_int (timeOf a)))"
  by (auto simp: getTime_timeOf)

lemma sorted_by_start:
  assumes "\<forall>e \<in> set items. parseDate now (startDate e) \<noteq> InvalidDate"
  shows "sorted_wrt (\<lambda>a b. startTime now a \<le> startTime now b) (Array_sort (byStartDate now) items)"
proof -
  have "sorted (map (startTime now) (sort_key (startTime now) items))" by (rule sorted_sort_key)
  then show ?thesis
    by (simp add: Array_sort_sort_key [OF assms] sorted_map)
qed

lemma firstFitColumn_chosen: "firstFitColumn ends s = chosenColumn ends s"
proof (rule chosenColumn_cases [of ends s])
  assume "\<forall>e \<in> set ends. \<not> js_le e s" and c: "chosenColumn ends s = length ends"
  then have "find (\<lambda>c. js_le (ends ! c) s) [0..<length ends] = None"
    by (simp add: find_None_iff)
  with c show ?thesis by (simp add: firstFitColumn_def)
next
  fix k assume k: "k < length ends" "chosenColumn ends s = k" "js_le (ends ! k) s"
    "\<forall>k' < k. \<not> js_le (ends ! k') s"
  have "find (\<lambda>c. js_le (ends ! c) s) [0..<length ends] = Some k"
    unfolding find_Some_iff
  proof (intro exI [of _ k] conjI allI impI)
    fix j assume "j < k"
    with k(1,4) show "\<not> js_le (ends ! ([0..<length ends] ! j)) s" by simp
  qed (use k in simp_all)
  with k(2) show ?thesis by (simp add: firstFitColumn_def)
qed

lemma placeItem_first_fit:
  "placeItem now minDate mvm item (columnVisualEnds, itemBounds) =
     (let c = firstFitColumn columnVisualEnds (visualStart now minDate item)
      in ((if c < length columnVisualEnds
           then columnVisualEnds[c := visualEnd now minDate mvm item]
           else columnVisualEnds @ [visualEnd now minDate mvm item]),
          itemBounds @
            [\<lparr>b_id = item_id item, b_start = visualStart now minDate item,
              b_end = visualEnd now minDate mvm item, b_column = c\<rparr>]))"
proof -
  have "chosenColumn columnVisualEnds (visualStart now minDate item) \<le> length columnVisualEnds"
    by (rule chosenColumn_le)
  then show ?thesis
    by (auto simp: placeItem_eq firstFitColumn_chosen Let_def)
qed

lemma fold_placeItem_first_fit:
  "map (\<lambda>b. (b_id b, b_column b)) (snd (fold (placeItem now minDate mvm) xs (w, bs))) =
     map (\<lambda>b. (b_id b, b_column b)) bs @
     firstFitAssignment (map (itemKey now minDate mvm) xs) w"
proof (induction xs arbitrary: w bs)
  case Nil
  then show ?case by simp
next
  case (Cons x xs)
  define c where "c = firstFitColumn w (visualStart now minDate x)"
  define w' where "w' = (if c < length w then w[c := visualEnd now minDate mvm x]
                         else w @ [visualEnd now minDate mvm x])"
  define nb where "nb = \<lparr>b_id = item_id x, b_start = visualStart now minDate x,
              b_end = visualEnd now minDate mvm x, b_column = c\<rparr>"
  have step: "placeItem now minDate mvm x (w, bs) = (w', bs @ [nb])"
    by (simp add: placeItem_first_fit Let_def c_def w'_def nb_def)
  have spec: "firstFitAssignment (map (itemKey now minDate mvm) (x # xs)) w =
      (item_id x, c) # firstFitAssignment (map (itemKey now minDate mvm) xs) w'"
    by (simp add: itemKey_def Let_def c_def w'_def)
  have "map (\<lambda>b. (b_id b, b_column b)) (snd (fold (placeItem now minDate mvm) (x # xs) (w, bs))) =
      map (\<lambda>b. (b_id b, b_column b)) (bs @ [nb]) @
      firstFitAssignment (map (itemKey now minDate mvm) xs) w'"
    unfolding fold_Cons o_apply step by (rule Cons.IH)
  also have "\<dots> = map (\<lambda>b. (b_id b, b_column b)) bs @
      firstFitAssignment (map (itemKey now minDate mvm) (x # xs)) w"
    unfolding spec by (simp add: nb_def)
  finally show ?case .
qed

lemma itemBoundsOf_first_fit:
  "map (\<lambda>b. (b_id b, b_column b)) (itemBoundsOf now items minDate mvm) =
     firstFitAssignment (map (itemKey now minDate mvm) (Array_sort (byStartDate now) items)) []"
  using fold_placeItem_first_fit [of now minDate mvm "Array_sort (byStartDate now) items" "[]" "[]"]
  by (simp add: itemBoundsOf_def firstPass_def)

lemma itemBoundsOf_ids:
  "map b_id (itemBoundsOf now items minDate mvm) = map item_id (Array_sort (byStartDate now) items)"
proof -
  let ?bs = "itemBoundsOf now items minDate mvm"
  have "map b_id ?bs = map fst (map boundsKey ?bs)" by (simp add: boundsKey_def o_def)
  also have "\<dots> = map item_id (Array_sort (byStartDate now) items)"
    by (simp add: itemBoundsOf_def firstPass_keys itemKey_def o_def)
  finally show ?thesis .
qed

lemma dom_fold_upd:
  "dom (fold (\<lambda>x m. m(g x \<mapsto> f x)) xs m) = dom m \<union> g ` set xs"
  by (induction xs arbitrary: m) auto

lemma dom_assignColumnsWithLayout:
  "dom (assignColumnsWithLayout now items minDate mvm) = item_id ` set items"
proof -
  have "dom (assignColumnsWithLayout now items minDate mvm) =
      set (map b_id (itemBoundsOf now items minDate mvm))"
    by (simp add: assignColumnsWithLayout_eq secondPass_def dom_fold_upd)
  also have "\<dots> = item_id ` set items"
    unfolding itemBoundsOf_ids by (simp add: set_Array_sort)
  finally show ?thesis .
qed

lemma column_is_first_fit:
  assumes "\<forall>e \<in> set items. parseDate now (startDate e) \<noteq> InvalidDate"
    and "distinct (map item_id items)" and "a \<in> set items"
  shows "\<exists>l. assignColumnsWithLayout now items minDate mvm (item_id a) = Some l \<and>
           firstFitColumns now items minDate mvm (item_id a) = Some (column l)"
proof -
  define bs where "bs = itemBoundsOf now items minDate mvm"
  define ps where "ps = map (\<lambda>b. (b_id b, b_column b)) bs"
  from bounds_of_item [OF assms(2,3) bs_def]
  obtain i where i: "i < length bs" "boundsKey (bs ! i) = itemKey now minDate mvm a"
    "assignColumnsWithLayout now items minDate mvm (item_id a) = Some (layoutOf bs (bs ! i))"
    by auto
  have id: "b_id (bs ! i) = item_id a" using i(2) by (simp add: boundsKey_def itemKey_def)
  have "map fst ps = map b_id bs" by (simp add: ps_def o_def)
  also have "\<dots> = map item_id (Array_sort (byStartDate now) items)"
    unfolding bs_def by (rule itemBoundsOf_ids)
  finally have "distinct (map fst ps)"
    using assms(2) by (simp add: distinct_map_Array_sort)
  moreover have "(item_id a, b_column (bs ! i)) \<in> set ps"
  proof -
    have "bs ! i \<in> set bs" using i(1) by simp
    then have "(b_id (bs ! i), b_column (bs ! i)) \<in> set ps"
      unfolding ps_def by (simp add: image_iff) blast
    then show ?thesis by (simp add: id)
  qed
  ultimately have "map_of ps (item_id a) = Some (b_column (bs ! i))"
    by (simp add: map_of_eq_Some_iff)
  moreover have "ps = firstFitAssignment
      (map (itemKey now minDate mvm) (sort_key (startTime now) items)) []"
    unfolding ps_def bs_def itemBoundsOf_first_fit Array_sort_sort_key [OF assms(1)] ..
  ultimately have "firstFitColumns now items minDate mvm (item_id a) = Some (b_column (bs ! i))"
    by (simp add: firstFitColumns_def)
  moreover have "column (layoutOf bs (bs ! i)) = b_column (bs ! i)"
    by (simp add: layoutOf_def Let_def)
  ultimately show ?thesis using i(3) by simp
qed


lemma ex_sorted_swapped: "Array_sort (byStartDate now) [exB, exA, exC] = [exA, exB, exC]"
  by (simp add: byStartDate_def ex_parse js_gt_def calendar_defs)

lemma ex_bounds_swapped:
  "itemBoundsOf now [exB, exA, exC] (Date 2023 0 1 0) (Num (15/4)) =
     [\<lparr>b_id = ''a'', b_start = Num 0, b_end = Num 5, b_column = 0\<rparr>,
      \<lparr>b_id = ''b'', b_start = Num 2, b_end = Num 8, b_column = 1\<rparr>,
      \<lparr>b_id = ''c'', b_start = Num 6, b_end = Num 11, b_column = 0\<rparr>]"
  unfolding itemBoundsOf_def ex_sorted_swapped
  by (simp add: firstPass_def placeItem_def ex_visual ex_fields Let_def)

lemma ex_layout_swapped:
  "assignColumnsWithLayout now [exB, exA, exC] (Date 2023 0 1 0) (Num (15/4)) (item_id exA) =
     Some \<lparr>column = 0, localColumnCount = 2, localColumnOffset = 0\<rparr>"
  "assignColumnsWithLayout now [exB, exA, exC] (Date 2023 0 1 0) (Num (15/4)) (item_id exB) =
     Some \<lparr>column = 1, localColumnCount = 2, localColumnOffset = 1\<rparr>"
  "assignColumnsWithLayout now [exB, exA, exC] (Date 2023 0 1 0) (Num (15/4)) (item_id exC) =
     Some \<lparr>column = 0, localColumnCount = 2, localColumnOffset = 0\<rparr>"
  by (simp_all add: assignColumnsWithLayout_eq ex_bounds_swapped secondPass_def layoutOf_def
      overlapsBounds_def js_gt_def Let_def ex_fields)

lemma firstFitAssignment_example:
  "firstFitAssignment [(''a'', Num 0, Num 5), (''b'', Num 2, Num 8), (''c'', Num 6, Num 11)] [] =
     [(''a'', 0), (''b'', 1), (''c'', 0)]"
  by (simp add: firstFitColumn_def Let_def)

text \<open>
  C4. For a list of entries with distinct ids whose start dates all resolve, the
  first pass of \<open>assignColumnsWithLayout\<close> runs over the entries sorted by the time
  of their start date, ascending, entries of equal start time in their input order
  (the sorted list restricted to any one start time is the input list restricted
  to it); this is the order of the stable sort by start time that the specification
  asks for. The layout it returns has exactly the ids of the list, and the column of
  every entry is the column of the first-fit rule of the specification run over
  that order from no columns: the first column whose watermark is \<open>\<le>\<close> the visual
  start of the entry, a new column at the next index when there is none, the
  watermark of the column set to the visual end of the entry. The layout is a
  function of the list and its order.
\<close>

theorem column_assignment_first_fit:
  assumes "\<forall>e \<in> set items. parseDate now (startDate e) \<noteq> InvalidDate"
    and "distinct (map item_id items)"
  shows "sorted_wrt (\<lambda>a b. js_le (getTime (parseDate now (startDate a)))
                             (getTime (parseDate now (startDate b))))
           (Array_sort (byStartDate now) items) \<and>
         (\<forall>t. filter (\<lambda>x. getTime (parseDate now (startDate x)) = t)
                 (Array_sort (byStartDate now) items) =
               filter (\<lambda>x. getTime (parseDate now (startDate x)) = t) items) \<and>
         Array_sort (byStartDate now) items = sort_key (startTime now) items \<and>
         dom (assignColumnsWithLayout now items minDate mvm) = item_id ` set items \<and>
         (\<forall>e \<in> set items. \<exists>l.
            assignColumnsWithLayout now items minDate mvm (item_id e) = Some l \<and>
            firstFitColumns now items minDate mvm (item_id e) = Some (column l))"
proof (intro conjI allI ballI)
  let ?xs = "Array_sort (byStartDate now) items"
  have v: "\<forall>e \<in> set ?xs. parseDate now (startDate e) \<noteq> InvalidDate"
    using assms(1) by (simp add: set_Array_sort)
  have s: "sorted_wrt (\<lambda>a b. startTime now a \<le> startTime now b) ?xs"
    by (rule sorted_by_start [OF assms(1)])
  show "sorted_wrt (\<lambda>a b. js_le (getTime (parseDate now (startDate a)))
                             (getTime (parseDate now (startDate b)))) ?xs"
  proof (rule sorted_wrt_mono_rel [OF _ s])
    fix x y assume "x \<in> set ?xs" "y \<in> set ?xs" "startTime now x \<le> startTime now y"
    with v show "js_le (getTime (parseDate now (startDate x))) (getTime (parseDate now (startDate y)))"
      by (simp add: getTime_le_iff startTime_def)
  qed
next
  fix t
  let ?P = "\<lambda>x. getTime (parseDate now (startDate x)) = t"
  show "filter ?P (Array_sort (byStartDate now) items) = filter ?P items"
  proof (cases t)
    case NaN
    have "filter ?P xs = []" if "\<forall>e \<in> set xs. parseDate now (startDate e) \<noteq> InvalidDate" for xs
      using that by (auto simp: filter_empty_conv NaN getTime_timeOf)
    from this [of items] this [of "Array_sort (byStartDate now) items"] assms(1)
    show ?thesis by (simp add: set_Array_sort)
  next
    case (Num r)
    show ?thesis
    proof (cases "\<exists>k. r = of_int k")
      case True
      then obtain k where k: "r = of_int k" by blast
      have eq: "filter ?P xs = filter (\<lambda>x. startTime now x = k) xs"
        if "\<forall>e \<in> set xs. parseDate now (startDate e) \<noteq> InvalidDate" for xs
        using that by (induction xs) (auto simp: Num getTime_timeOf startTime_def k)
      have "filter ?P (Array_sort (byStartDate now) items) =
          filter (\<lambda>x. startTime now x = k) (sort_key (startTime now) items)"
        using eq [of "Array_sort (byStartDate now) items"] assms(1)
        by (simp add: set_Array_sort Array_sort_sort_key [OF assms(1)])
      also have "\<dots> = filter (\<lambda>x. startTime now x = k) items" by (rule sort_key_stable)
      also have "\<dots> = filter ?P items" using eq [of items] assms(1) by simp
      finally show ?thesis .
    next
      case False
      have "filter ?P xs = []" if "\<forall>e \<in> set xs. parseDate now (startDate e) \<noteq> InvalidDate" for xs
        using that False by (auto simp: filter_empty_conv Num getTime_timeOf)
      from this [of items] this [of "Array_sort (byStartDate now) items"] assms(1)
      show ?thesis by (simp add: set_Array_sort)
    qed
  qed
next
  show "Array_sort (byStartDate now) items = sort_key (startTime now) items"
    by (rule Array_sort_sort_key [OF assms(1)])
next
  show "dom (assignColumnsWithLayout now items minDate mvm) = item_id ` set items"
    by (rule dom_assignColumnsWithLayout)
next
  fix e assume "e \<in> set items"
  from column_is_first_fit [OF assms this]
  show "\<exists>l. assignColumnsWithLayout now items minDate mvm (item_id e) = Some l \<and>
            firstFitColumns now items minDate mvm (item_id e) = Some (column l)" .
qed

theorem column_assignment_first_fit_witness:
  "list_all (\<lambda>e. parseDate (Date 2023 3 15 0) (startDate e) \<noteq> InvalidDate) [exB, exA, exC] \<and>
   distinct (map item_id [exB, exA, exC]) \<and>
   Array_sort (byStartDate (Date 2023 3 15 0)) [exB, exA, exC] = [exA, exB, exC] \<and>
   dom (assignColumnsWithLayout (Date 2023 3 15 0) [exB, exA, exC] (Date 2023 0 1 0)
          (Num (15 / 4))) = item_id ` set [exB, exA, exC] \<and>
   assignColumnsWithLayout (Date 2023 3 15 0) [exB, exA, exC] (Date 2023 0 1 0) (Num (15 / 4))
     (item_id exA) = Some \<lparr>column = 0, localColumnCount = 2, localColumnOffset = 0\<rparr> \<and>
   assignColumnsWithLayout (Date 2023 3 15 0) [exB, exA, exC] (Date 2023 0 1 0) (Num (15 / 4))
     (item_id exB) = Some \<lparr>column = 1, localColumnCount = 2, localColumnOffset = 1\<rparr> \<and>
   assignColumnsWithLayout (Date 2023 3 15 0) [exB, exA, exC] (Date 2023 0 1 0) (Num (15 / 4))
     (item_id exC) = Some \<lparr>column = 0, localColumnCount = 2, localColumnOffset = 0\<rparr> \<and>
   firstFitColumns (Date 2023 3 15 0) [exB, exA, exC] (Date 2023 0 1 0) (Num (15 / 4))
     (item_id exA) = Some 0 \<and>
   firstFitColumns (Date 2023 3 15 0) [exB, exA, exC] (Date 2023 0 1 0) (Num (15 / 4))
     (item_id exB) = Some 1 \<and>
   firstFitColumns (Date 2023 3 15 0) [exB, exA, exC] (Date 2023 0 1 0) (Num (15 / 4))
     (item_id exC) = Some 0"
proof -
  have 1: "\<forall>e \<in> set [exB, exA, exC]. parseDate (Date 2023 3 15 0) (startDate e) \<noteq> InvalidDate"
    by (simp add: ex_parse)
  have 2: "distinct (map item_id [exB, exA, exC])" by (simp add: ex_fields)
  note main = column_assignment_first_fit [OF 1 2, of "Date 2023 0 1 0" "Num (15 / 4)"]
  have h: "list_all (\<lambda>e. parseDate (Date 2023 3 15 0) (startDate e) \<noteq> InvalidDate) [exB, exA, exC]"
    by (simp add: ex_parse)
  note s = ex_sorted_swapped [of "Date 2023 3 15 0"]
  note d = conjunct1 [OF conjunct2 [OF conjunct2 [OF conjunct2 [OF main]]]]
  note f = conjunct2 [OF conjunct2 [OF conjunct2 [OF conjunct2 [OF main]]]]
  note l = ex_layout_swapped [of "Date 2023 3 15 0"]
  from f l(1) have a: "firstFitColumns (Date 2023 3 15 0) [exB, exA, exC] (Date 2023 0 1 0)
      (Num (15 / 4)) (item_id exA) = Some 0" by simp
  from f l(2) have b: "firstFitColumns (Date 2023 3 15 0) [exB, exA, exC] (Date 2023 0 1 0)
      (Num (15 / 4)) (item_id exB) = Some 1" by simp
  from f l(3) have c: "firstFitColumns (Date 2023 3 15 0) [exB, exA, exC] (Date 2023 0 1 0)
      (Num (15 / 4)) (item_id exC) = Some 0" by simp
  from h 2 s d l a b c show ?thesis by (intro conjI)
qed

subsection \<open>The ranks of an overlap cluster\<close>

lemma stacked_placeItem:
  assumes st: "stacked (ends, bs)" and num: "\<forall>b \<in> set bs. numericBounds b"
    and vs: "visualStart now minDate x = Num s" and ve: "visualEnd now minDate mvm x = Num e"
    and se: "s < e"
    and before: "\<forall>b \<in> set bs. js_le (b_start b) (Num s)"
  shows "stacked (placeItem now minDate mvm x (ends, bs))"
proof -
  define c where "c = chosenColumn ends (Num s)"
  define nb where "nb = \<lparr>b_id = item_id x, b_start = Num s, b_end = Num e, b_column = c\<rparr>"
  define ends' where "ends' = (if c = length ends then ends @ [Num e] else ends[c := Num e])"
  have eq: "placeItem now minDate mvm x (ends, bs) = (ends', bs @ [nb])"
    by (simp add: placeItem_eq Let_def vs ve c_def nb_def ends'_def)
  have cle: "c \<le> length ends" by (simp add: c_def chosenColumn_le)
  have at_c: "ends' ! c = Num e" using cle by (auto simp: ends'_def)
  have other: "ends' ! k = ends ! k" if "k < length ends" "k \<noteq> c" for k
    using that by (auto simp: ends'_def nth_append)
  have old: "k < length ends" if "k < length ends'" "k \<noteq> c" for k
    using that cle by (auto simp: ends'_def split: if_splits)
  from st have cols: "\<And>k. k < length ends \<Longrightarrow> \<exists>b \<in> set bs. b_column b = k \<and> b_end b = ends ! k"
    and lows: "\<And>b k. b \<in> set bs \<Longrightarrow> k < b_column b \<Longrightarrow>
        \<exists>b' \<in> set bs. b_column b' = k \<and> overlapsBounds b b'"
    by (auto simp: stacked_def)
  have 1: "\<exists>b \<in> set (bs @ [nb]). b_column b = k \<and> b_end b = ends' ! k" if "k < length ends'" for k
  proof (cases "k = c")
    case True
    then show ?thesis using at_c by (simp add: nb_def)
  next
    case False
    from old [OF that False] have k: "k < length ends" .
    from cols [OF k] other [OF k False] show ?thesis by auto
  qed
  have low: "\<exists>b' \<in> set bs. b_column b' = k \<and> overlapsBounds nb b'" if "k < c" for k
  proof -
    from that cle have k: "k < length ends" by simp
    from that have blocked: "\<not> js_le (ends ! k) (Num s)"
      unfolding c_def by (rule chosenColumn_blocked)
    from cols [OF k] obtain b' where b': "b' \<in> set bs" "b_column b' = k" "b_end b' = ends ! k"
      by auto
    from num b'(1) obtain s' e' where n: "b_start b' = Num s'" "b_end b' = Num e'" "s' < e'"
      by (auto simp: numericBounds_def)
    from before b'(1) n(1) have "s' \<le> s" by auto
    moreover have "s < e'"
    proof -
      from b'(3) n(2) have "ends ! k = Num e'" by simp
      with blocked show ?thesis by simp
    qed
    ultimately have "overlapsBounds nb b'"
      using se n by (simp add: overlapsBounds_def js_gt_def nb_def)
    with b' show ?thesis by auto
  qed
  have 2: "\<exists>b' \<in> set (bs @ [nb]). b_column b' = k \<and> overlapsBounds b b'"
    if "b \<in> set (bs @ [nb])" "k < b_column b" for b k
  proof (cases "b = nb")
    case True
    with that(2) have "k < c" by (simp add: nb_def)
    from low [OF this] True show ?thesis by auto
  next
    case False
    with that(1) have "b \<in> set bs" by simp
    from lows [OF this that(2)] show ?thesis by auto
  qed
  show ?thesis
    unfolding eq stacked_def using 1 2 by simp
qed

lemma placeItem_snd:
  "snd (placeItem now minDate mvm x (ends, bs)) =
     bs @ [\<lparr>b_id = item_id x, b_start = visualStart now minDate x,
            b_end = visualEnd now minDate mvm x,
            b_column = chosenColumn ends (visualStart now minDate x)\<rparr>]"
  by (simp add: placeItem_eq Let_def)

lemma stacked_fold:
  assumes "stacked st" and "\<forall>b \<in> set (snd st). numericBounds b"
    and "\<forall>x \<in> set xs. \<exists>s e. visualStart now minDate x = Num s \<and>
           visualEnd now minDate mvm x = Num e \<and> s < e"
    and "sorted_wrt (\<lambda>a b. js_le (visualStart now minDate a) (visualStart now minDate b)) xs"
    and "\<forall>b \<in> set (snd st). \<forall>x \<in> set xs. js_le (b_start b) (visualStart now minDate x)"
  shows "stacked (fold (placeItem now minDate mvm) xs st)"
  using assms
proof (induction xs arbitrary: st)
  case Nil
  then show ?case by simp
next
  case (Cons x xs)
  obtain ends bs where st: "st = (ends, bs)" by (cases st)
  from Cons.prems(3) obtain s e where x: "visualStart now minDate x = Num s"
    "visualEnd now minDate mvm x = Num e" "s < e" by auto
  let ?st' = "placeItem now minDate mvm x st"
  have before: "\<forall>b \<in> set bs. js_le (b_start b) (Num s)"
    using Cons.prems(5) x(1) by (simp add: st)
  have 1: "stacked ?st'"
    unfolding st using Cons.prems(1,2) x before
    by (intro stacked_placeItem) (simp_all add: st)
  have snd': "snd ?st' = bs @ [\<lparr>b_id = item_id x, b_start = Num s, b_end = Num e,
      b_column = chosenColumn ends (Num s)\<rparr>]"
    by (simp add: st placeItem_snd x)
  have 2: "\<forall>b \<in> set (snd ?st'). numericBounds b"
    unfolding snd' using Cons.prems(2) x(3) by (simp add: st numericBounds_def)
  have 3: "\<forall>x \<in> set xs. \<exists>s e. visualStart now minDate x = Num s \<and>
           visualEnd now minDate mvm x = Num e \<and> s < e"
    using Cons.prems(3) by simp
  have 4: "sorted_wrt (\<lambda>a b. js_le (visualStart now minDate a) (visualStart now minDate b)) xs"
    using Cons.prems(4) by simp
  have 5: "\<forall>b \<in> set (snd ?st'). \<forall>y \<in> set xs. js_le (b_start b) (visualStart now minDate y)"
    unfolding snd' using Cons.prems(4,5) x(1) by (auto simp: st)
  from Cons.IH [OF 1 2 3 4 5] show ?case by simp
qed

lemma stacked_firstPass:
  assumes "\<forall>x \<in> set xs. \<exists>s e. visualStart now minDate x = Num s \<and>
           visualEnd now minDate mvm x = Num e \<and> s < e"
    and "sorted_wrt (\<lambda>a b. js_le (visualStart now minDate a) (visualStart now minDate b)) xs"
  shows "stacked (firstPass now minDate mvm xs)"
  unfolding firstPass_def
  by (rule stacked_fold [OF _ _ assms]) (simp_all add: stacked_def)

lemma indexOf_found: "x \<in> set xs \<Longrightarrow> indexOf xs x \<noteq> -1"
  using indexOf_present [of x xs] by auto

lemma indexOf_sorted_prefix:
  fixes xs :: "nat list"
  assumes "sorted xs" and "distinct xs" and "\<forall>x \<in> set xs. n \<le> x"
    and "\<forall>c. n \<le> c \<and> c \<le> k \<longrightarrow> c \<in> set xs" and "n \<le> k"
  shows "indexOf xs k = int (k - n)"
  using assms
proof (induction xs arbitrary: n)
  case Nil
  then show ?case by auto
next
  case (Cons y ys)
  from Cons.prems(4,5) have "n \<in> set (y # ys)" by auto
  with Cons.prems(1,3) have y: "y = n" by (auto simp: order.antisym)
  show ?case
  proof (cases "k = n")
    case True
    with y show ?thesis by simp
  next
    case False
    with Cons.prems(5) have nk: "Suc n \<le> k" by simp
    have 1: "sorted ys" "distinct ys" using Cons.prems(1,2) by simp_all
    have 2: "\<forall>x \<in> set ys. Suc n \<le> x"
      using Cons.prems(1,2) y by (auto simp: Suc_le_eq order.strict_iff_order)
    have 3: "\<forall>c. Suc n \<le> c \<and> c \<le> k \<longrightarrow> c \<in> set ys"
    proof (intro allI impI)
      fix c assume c: "Suc n \<le> c \<and> c \<le> k"
      then have "n \<le> c \<and> c \<le> k" by simp
      with Cons.prems(4) have "c \<in> set (y # ys)" by blast
      with c y show "c \<in> set ys" by auto
    qed
    from Cons.IH [OF 1 2 3 nk] have ih: "indexOf ys k = int (k - Suc n)" .
    then have "indexOf ys k \<noteq> -1" by simp
    with ih False y nk show ?thesis by (simp add: Let_def)
  qed
qed

lemma layoutOf_offset_is_column:
  assumes "b \<in> set bs" and "overlapsBounds b b"
    and "\<forall>c < b_column b. \<exists>b' \<in> set bs. b_column b' = c \<and> overlapsBounds b b'"
  shows "localColumnOffset (layoutOf bs b) = int (b_column b)"
proof -
  let ?cols = "sort (remdups (map b_column (filter (overlapsBounds b) bs)))"
  have "\<forall>c. 0 \<le> c \<and> c \<le> b_column b \<longrightarrow> c \<in> set ?cols"
  proof (intro allI impI)
    fix c assume "0 \<le> c \<and> c \<le> b_column b"
    then have "c = b_column b \<or> c < b_column b" by auto
    then show "c \<in> set ?cols"
    proof
      assume "c = b_column b"
      with assms(1,2) show ?thesis by auto
    next
      assume "c < b_column b"
      with assms(3) obtain b' where "b' \<in> set bs" "b_column b' = c" "overlapsBounds b b'" by auto
      then show ?thesis by auto
    qed
  qed
  then have "indexOf ?cols (b_column b) = int (b_column b - 0)"
    by (intro indexOf_sorted_prefix) simp_all
  then show ?thesis by (simp add: layoutOf_def Let_def)
qed

lemma downward_closed_nat:
  fixes T :: "nat set"
  assumes "finite T" and "\<forall>x \<in> T. \<forall>c < x. c \<in> T"
  shows "T = {0..<card T}"
proof -
  have "T \<subseteq> {0..<card T}"
  proof
    fix x assume x: "x \<in> T"
    with assms(2) have "{0..x} \<subseteq> T" by (auto simp: le_less)
    from card_mono [OF assms(1) this] show "x \<in> {0..<card T}" by simp
  qed
  moreover have "card {0..<card T} = card T" by simp
  ultimately show ?thesis
    by (metis card_subset_eq finite_atLeastLessThan)
qed

lemma bounds_nth:
  assumes "distinct (map item_id items)"
    and bs: "bs = itemBoundsOf now items minDate mvm"
    and xs: "xs = Array_sort (byStartDate now) items"
  shows "length bs = length xs \<and>
    (\<forall>i < length xs. boundsKey (bs ! i) = itemKey now minDate mvm (xs ! i) \<and>
       assignColumnsWithLayout now items minDate mvm (item_id (xs ! i)) =
         Some (layoutOf bs (bs ! i)))"
proof -
  have keys: "map boundsKey bs = map (itemKey now minDate mvm) xs"
    by (simp add: bs xs itemBoundsOf_def firstPass_keys)
  then have len: "length bs = length xs" by (metis length_map)
  have "map b_id bs = map fst (map boundsKey bs)" by (simp add: boundsKey_def o_def)
  also have "\<dots> = map item_id xs" by (simp add: keys itemKey_def o_def)
  finally have ids: "map b_id bs = map item_id xs" .
  with assms(1) have dist: "distinct (map b_id bs)" by (simp add: xs distinct_map_Array_sort)
  have "boundsKey (bs ! i) = itemKey now minDate mvm (xs ! i) \<and>
       assignColumnsWithLayout now items minDate mvm (item_id (xs ! i)) =
         Some (layoutOf bs (bs ! i))" if i: "i < length xs" for i
  proof -
    have key: "boundsKey (bs ! i) = itemKey now minDate mvm (xs ! i)"
      using i len nth_map [of i bs boundsKey] nth_map [of i xs "itemKey now minDate mvm"] keys
      by simp
    have "bs ! i \<in> set bs" using i len by simp
    with dist have "secondPass bs (b_id (bs ! i)) = Some (layoutOf bs (bs ! i))"
      by (rule secondPass_distinct)
    moreover have "b_id (bs ! i) = item_id (xs ! i)"
      using key by (simp add: boundsKey_def itemKey_def)
    ultimately show ?thesis using key by (simp add: assignColumnsWithLayout_eq bs)
  qed
  with len show ?thesis by blast
qed

lemma overlaps_self:
  assumes "overlaps now minDate mvm a y"
  shows "overlaps now minDate mvm a a"
proof -
  from assms obtain e where e: "visualEnd now minDate mvm a = Num e"
    by (cases "visualEnd now minDate mvm a") (auto simp: overlaps_def)
  from visualEnd_after_start [OF this] obtain s where "visualStart now minDate a = Num s" "s + 1 \<le> e"
    by auto
  with e show ?thesis by (simp add: overlaps_def js_gt_def)
qed

lemma cluster_member_overlaps:
  assumes "overlapCluster now minDate mvm items S" and "a \<in> S"
  shows "overlaps now minDate mvm a a"
proof -
  let ?R = "{(x, y). x \<in> set items \<and> y \<in> set items \<and> overlaps now minDate mvm x y}"
  from assms have "(a, a) \<in> ?R\<^sup>+" by (simp add: overlapCluster_def)
  then obtain z where "(a, z) \<in> ?R" by (meson tranclD)
  then have "overlaps now minDate mvm a z" by simp
  then show ?thesis by (rule overlaps_self)
qed

lemma cluster_subset:
  "overlapCluster now minDate mvm items S \<Longrightarrow> a \<in> S \<Longrightarrow> a \<in> set items"
  unfolding overlapCluster_def by blast

lemma cluster_closed:
  "overlapCluster now minDate mvm items S \<Longrightarrow> a \<in> S \<Longrightarrow> b \<in> set items \<Longrightarrow>
     overlaps now minDate mvm a b \<Longrightarrow> b \<in> S"
  unfolding overlapCluster_def by blast

lemma overlapsBounds_keys:
  assumes "boundsKey b = itemKey now minDate mvm a" and "boundsKey b' = itemKey now minDate mvm a'"
  shows "overlapsBounds b b' \<longleftrightarrow> overlaps now minDate mvm a a'"
  using assms by (simp add: overlapsBounds_def overlaps_def boundsKey_def itemKey_def)

lemma visualStart_sorted:
  assumes now: "properDate now"
    and valid: "\<forall>e \<in> set items. parseDate now (startDate e) \<noteq> InvalidDate"
    and minDate: "minDate \<noteq> InvalidDate"
  shows "sorted_wrt (\<lambda>a b. js_le (visualStart now minDate a) (visualStart now minDate b))
           (Array_sort (byStartDate now) items)"
proof -
  let ?xs = "Array_sort (byStartDate now) items"
  have v: "\<forall>e \<in> set ?xs. parseDate now (startDate e) \<noteq> InvalidDate"
    using valid by (simp add: set_Array_sort)
  have s: "sorted_wrt (\<lambda>a b. startTime now a \<le> startTime now b) ?xs"
    by (rule sorted_by_start [OF valid])
  show ?thesis
  proof (rule sorted_wrt_mono_rel [OF _ s])
    fix x y assume x: "x \<in> set ?xs" and y: "y \<in> set ?xs"
      and le: "startTime now x \<le> startTime now y"
    from v x y have vx: "parseDate now (startDate x) \<noteq> InvalidDate"
      and vy: "parseDate now (startDate y) \<noteq> InvalidDate" by auto
    with parseDate_proper [OF now] have "properDate (parseDate now (startDate x))"
      "properDate (parseDate now (startDate y))" by blast+
    from monthNumber_le_of_time_le [OF this] le
    have "monthNumber (parseDate now (startDate x)) \<le> monthNumber (parseDate now (startDate y))"
      by (simp add: startTime_def)
    then show "js_le (visualStart now minDate x) (visualStart now minDate y)"
      using vx vy minDate by (simp add: visualStart_def monthsBetween_monthNumber)
  qed
qed

lemma cluster_member_facts:
  assumes dist: "distinct (map item_id items)" and now: "properDate now"
    and valid: "\<forall>e \<in> set items. parseDate now (startDate e) \<noteq> InvalidDate \<and>
                  parseDateForBounds now (endDate e) \<noteq> InvalidDate"
    and minDate: "minDate \<noteq> InvalidDate" and mvm: "mvm \<noteq> NaN"
    and cluster: "overlapCluster now minDate mvm items S" and a: "a \<in> S"
  shows "\<exists>l. assignColumnsWithLayout now items minDate mvm (item_id a) = Some l \<and>
           localColumnOffset l = int (column l) \<and>
           (\<forall>k < column l. \<exists>a' \<in> S. \<exists>l'.
              assignColumnsWithLayout now items minDate mvm (item_id a') = Some l' \<and> column l' = k)"
proof -
  define xs where "xs = Array_sort (byStartDate now) items"
  define bs where "bs = itemBoundsOf now items minDate mvm"
  from bounds_nth [OF dist bs_def xs_def] have len: "length bs = length xs"
    and nth: "\<And>i. i < length xs \<Longrightarrow> boundsKey (bs ! i) = itemKey now minDate mvm (xs ! i) \<and>
       assignColumnsWithLayout now items minDate mvm (item_id (xs ! i)) = Some (layoutOf bs (bs ! i))"
    by blast+
  have set_xs: "set xs = set items" by (simp add: xs_def set_Array_sort)
  have num: "\<forall>x \<in> set xs. \<exists>s e. visualStart now minDate x = Num s \<and>
           visualEnd now minDate mvm x = Num e \<and> s < e"
  proof
    fix x assume "x \<in> set xs"
    with valid set_xs have "parseDate now (startDate x) \<noteq> InvalidDate"
      "parseDateForBounds now (endDate x) \<noteq> InvalidDate" by auto
    from visual_interval_valid [OF this minDate mvm] obtain s e where
      "visualStart now minDate x = Num s" "visualEnd now minDate mvm x = Num e" "s + 1 \<le> e"
      by blast
    then have "visualStart now minDate x = Num s \<and> visualEnd now minDate mvm x = Num e \<and> s < e"
      by simp
    then show "\<exists>s e. visualStart now minDate x = Num s \<and> visualEnd now minDate mvm x = Num e \<and> s < e"
      by blast
  qed
  have srt: "sorted_wrt (\<lambda>a b. js_le (visualStart now minDate a) (visualStart now minDate b)) xs"
    unfolding xs_def using valid by (intro visualStart_sorted [OF now _ minDate]) simp
  have "stacked (firstPass now minDate mvm xs)" by (rule stacked_firstPass [OF num srt])
  then have "stacked (fst (firstPass now minDate mvm xs), bs)"
    by (simp add: bs_def itemBoundsOf_def xs_def)
  then have low: "\<And>b k. b \<in> set bs \<Longrightarrow> k < b_column b \<Longrightarrow>
      \<exists>b' \<in> set bs. b_column b' = k \<and> overlapsBounds b b'"
    unfolding stacked_def snd_conv by blast
  from cluster a have "a \<in> set items" by (rule cluster_subset)
  with set_xs have "a \<in> set xs" by simp
  then obtain i where i: "i < length xs" "xs ! i = a" by (auto simp: in_set_conv_nth)
  from nth [OF i(1)] i(2) have key: "boundsKey (bs ! i) = itemKey now minDate mvm a"
    and lay: "assignColumnsWithLayout now items minDate mvm (item_id a) = Some (layoutOf bs (bs ! i))"
    by simp_all
  have mem: "bs ! i \<in> set bs" using i(1) len by simp
  have self: "overlapsBounds (bs ! i) (bs ! i)"
    using cluster_member_overlaps [OF cluster a] by (simp add: overlapsBounds_keys [OF key key])
  have "\<forall>c < b_column (bs ! i). \<exists>b' \<in> set bs. b_column b' = c \<and> overlapsBounds (bs ! i) b'"
    using low [OF mem] by blast
  with mem self have off: "localColumnOffset (layoutOf bs (bs ! i)) = int (b_column (bs ! i))"
    by (rule layoutOf_offset_is_column)
  have col: "column (layoutOf bs (bs ! i)) = b_column (bs ! i)"
    by (simp add: layoutOf_def Let_def)
  have below: "\<exists>a' \<in> S. \<exists>l'.
      assignColumnsWithLayout now items minDate mvm (item_id a') = Some l' \<and> column l' = k"
    if k: "k < b_column (bs ! i)" for k
  proof -
    from low [OF mem k] obtain b' where b': "b' \<in> set bs" "b_column b' = k"
      "overlapsBounds (bs ! i) b'" by blast
    from b'(1) obtain j where "j < length bs" "bs ! j = b'" unfolding in_set_conv_nth by blast
    with len have j: "j < length xs" "bs ! j = b'" by simp_all
    from nth [OF j(1)] j(2) have key': "boundsKey b' = itemKey now minDate mvm (xs ! j)"
      and lay': "assignColumnsWithLayout now items minDate mvm (item_id (xs ! j)) =
        Some (layoutOf bs b')" by simp_all
    from b'(3) have "overlaps now minDate mvm a (xs ! j)"
      by (simp add: overlapsBounds_keys [OF key key'])
    moreover have "xs ! j \<in> set items"
    proof -
      from j(1) have "xs ! j \<in> set xs" by (rule nth_mem)
      then show ?thesis by (simp only: set_xs)
    qed
    ultimately have inS: "xs ! j \<in> S" by (rule cluster_closed [OF cluster a, rotated])
    have "column (layoutOf bs b') = b_column b'" by (simp add: layoutOf_def Let_def)
    with b'(2) have ck: "column (layoutOf bs b') = k" by simp
    show ?thesis
    proof (intro bexI exI conjI)
      show "assignColumnsWithLayout now items minDate mvm (item_id (xs ! j)) =
          Some (layoutOf bs b')" by (rule lay')
      show "column (layoutOf bs b') = k" by (rule ck)
      show "xs ! j \<in> S" by (rule inS)
    qed
  qed
  have "localColumnOffset (layoutOf bs (bs ! i)) = int (column (layoutOf bs (bs ! i)))"
    by (simp only: off col)
  moreover have "\<forall>k < column (layoutOf bs (bs ! i)). \<exists>a' \<in> S. \<exists>l'.
      assignColumnsWithLayout now items minDate mvm (item_id a') = Some l' \<and> column l' = k"
    unfolding col using below by blast
  ultimately show ?thesis
    using lay by blast
qed

lemma ranks_of_offsets:
  fixes col :: "'a \<Rightarrow> nat" and off :: "'a \<Rightarrow> int"
  assumes fin: "finite S" and card: "card (col ` S) = card S"
    and off: "\<forall>a \<in> S. off a = int (col a)"
    and down: "\<forall>a \<in> S. \<forall>k < col a. \<exists>a' \<in> S. col a' = k"
  shows "off ` S = int ` {0..<card S} \<and> inj_on off S \<and> (\<Sum>a \<in> S. off a) = (\<Sum>i < card S. int i)"
proof -
  have "col ` S = {0..<card (col ` S)}"
    using fin down by (intro downward_closed_nat) auto
  with card have cols: "col ` S = {0..<card S}" by simp
  have inj: "inj_on col S" using card fin by (rule eq_card_imp_inj_on [rotated])
  have "off ` S = int ` col ` S" using off by (auto simp: image_iff)
  with cols have 1: "off ` S = int ` {0..<card S}" by simp
  have 2: "inj_on off S"
  proof (rule inj_onI)
    fix x y assume "x \<in> S" "y \<in> S" "off x = off y"
    with off have "col x = col y" by simp
    with inj \<open>x \<in> S\<close> \<open>y \<in> S\<close> show "x = y" by (auto dest: inj_onD)
  qed
  have "(\<Sum>a \<in> S. off a) = (\<Sum>a \<in> S. int (col a))" using off by simp
  also have "\<dots> = (\<Sum>i \<in> col ` S. int i)" using inj by (simp add: sum.reindex)
  also have "\<dots> = (\<Sum>i < card S. int i)" by (simp add: cols atLeast0LessThan)
  finally show ?thesis using 1 2 by simp
qed

lemma cluster_ranks_valid:
  assumes dist: "distinct (map item_id items)" and now: "properDate now"
    and valid: "\<forall>e \<in> set items. parseDate now (startDate e) \<noteq> InvalidDate \<and>
                  parseDateForBounds now (endDate e) \<noteq> InvalidDate"
    and minDate: "minDate \<noteq> InvalidDate" and mvm: "mvm \<noteq> NaN"
    and cluster: "overlapCluster now minDate mvm items S"
    and card: "card ((\<lambda>a. column (the (assignColumnsWithLayout now items minDate mvm (item_id a)))) ` S)
                = card S"
  shows "(\<lambda>a. localColumnOffset (the (assignColumnsWithLayout now items minDate mvm (item_id a)))) ` S
           = int ` {0..<card S} \<and>
         inj_on (\<lambda>a. localColumnOffset (the (assignColumnsWithLayout now items minDate mvm (item_id a)))) S \<and>
         (\<Sum>a \<in> S. localColumnOffset (the (assignColumnsWithLayout now items minDate mvm (item_id a))))
           = (\<Sum>i < card S. int i)"
proof (rule ranks_of_offsets [OF _ card])
  from cluster have "S \<subseteq> set items" by (simp add: overlapCluster_def)
  then show "finite S" by (rule finite_subset) simp
next
  show "\<forall>a \<in> S. localColumnOffset (the (assignColumnsWithLayout now items minDate mvm (item_id a))) =
      int (column (the (assignColumnsWithLayout now items minDate mvm (item_id a))))"
  proof
    fix a assume "a \<in> S"
    from cluster_member_facts [OF dist now valid minDate mvm cluster this]
    obtain l where "assignColumnsWithLayout now items minDate mvm (item_id a) = Some l"
      "localColumnOffset l = int (column l)" by blast
    then show "localColumnOffset (the (assignColumnsWithLayout now items minDate mvm (item_id a))) =
      int (column (the (assignColumnsWithLayout now items minDate mvm (item_id a))))" by simp
  qed
next
  show "\<forall>a \<in> S. \<forall>k < column (the (assignColumnsWithLayout now items minDate mvm (item_id a))).
      \<exists>a' \<in> S. column (the (assignColumnsWithLayout now items minDate mvm (item_id a'))) = k"
  proof (intro ballI allI impI)
    fix a k assume a: "a \<in> S"
      and k: "k < column (the (assignColumnsWithLayout now items minDate mvm (item_id a)))"
    from cluster_member_facts [OF dist now valid minDate mvm cluster a]
    obtain l where l: "assignColumnsWithLayout now items minDate mvm (item_id a) = Some l"
      and below: "\<forall>k < column l. \<exists>a' \<in> S. \<exists>l'.
        assignColumnsWithLayout now items minDate mvm (item_id a') = Some l' \<and> column l' = k"
      by blast
    from k l have "k < column l" by simp
    with below obtain a' l' where "a' \<in> S"
      "assignColumnsWithLayout now items minDate mvm (item_id a') = Some l'" "column l' = k"
      by blast
    then have "column (the (assignColumnsWithLayout now items minDate mvm (item_id a'))) = k"
      by simp
    with \<open>a' \<in> S\<close>
    show "\<exists>a' \<in> S. column (the (assignColumnsWithLayout now items minDate mvm (item_id a'))) = k"
      by (rule rev_bexI)
  qed
qed

lemma no_cluster_without_minDate:
  "\<not> overlapCluster now InvalidDate mvm items S"
proof
  assume c: "overlapCluster now InvalidDate mvm items S"
  then obtain a where "a \<in> S" by (auto simp: overlapCluster_def)
  from cluster_member_overlaps [OF c this] show False
    by (simp add: overlaps_def)
qed

lemma minDate_valid_or_not:
  assumes "items \<noteq> []"
  shows "tb_minDate (timelineBounds now items) = InvalidDate \<or>
    (tb_minDate (timelineBounds now items) \<noteq> InvalidDate \<and>
     (\<forall>e \<in> set items. parseDate now (startDate e) \<noteq> InvalidDate \<and>
                  parseDateForBounds now (endDate e) \<noteq> InvalidDate))"
proof (cases "InvalidDate \<in> set (allDates now items)")
  case True
  then have "Date_of_min (allDates now items) = InvalidDate" by (rule Date_of_min_invalid)
  then show ?thesis by (simp add: timelineBounds_nonempty [OF assms])
next
  case False
  from assms have ne: "allDates now items \<noteq> []" by (simp add: allDates_def)
  from Date_of_min_valid [OF ne False] have "Date_of_min (allDates now items) \<in> set (allDates now items)"
    by blast
  with False have 1: "Date_of_min (allDates now items) \<noteq> InvalidDate" by metis
  have 2: "parseDate now (startDate e) \<noteq> InvalidDate \<and>
           parseDateForBounds now (endDate e) \<noteq> InvalidDate" if "e \<in> set items" for e
  proof -
    from that have "parseDate now (startDate e) \<in> set (allDates now items)"
      "parseDateForBounds now (endDate e) \<in> set (allDates now items)"
      by (simp_all add: allDates_def)
    with False show ?thesis by metis
  qed
  from 1 2 show ?thesis by (simp add: timelineBounds_nonempty [OF assms])
qed

lemma ex_pair_distinct: "exA \<noteq> exB"
  by (simp add: exA_def exB_def entry_def)

lemma ex_pair_bounds:
  "timelineBounds (Date 2023 3 15 0) [exA, exB] =
     \<lparr>tb_minDate = Date 2023 0 1 0, tb_maxDate = Date 2023 8 1 0, tb_totalMonths = Num 9\<rparr>"
proof -
  have t: "timeValue 2023 0 1 0 < timeValue 2023 2 1 0" "timeValue 2023 2 1 0 < timeValue 2023 5 1 0"
    "timeValue 2023 5 1 0 < timeValue 2023 8 1 0" by (simp_all add: calendar_defs)
  then have t': "\<not> timeValue 2023 2 1 0 < timeValue 2023 0 1 0"
    "\<not> timeValue 2023 5 1 0 < timeValue 2023 0 1 0" "\<not> timeValue 2023 8 1 0 < timeValue 2023 0 1 0"
    "timeValue 2023 0 1 0 < timeValue 2023 5 1 0" "timeValue 2023 2 1 0 < timeValue 2023 8 1 0"
    by simp_all
  show ?thesis
    by (simp add: timelineBounds_def ex_parse monthsBetween_def t t' Let_def)
qed

lemma ex_pair_visual:
  "visualStart now (Date 2023 0 1 0) exA = Num 0" "visualStart now (Date 2023 0 1 0) exB = Num 2"
  "visualEnd now (Date 2023 0 1 0) (minVisualMonths 16) exA = Num 5"
  "visualEnd now (Date 2023 0 1 0) (minVisualMonths 16) exB = Num 8"
  using ex_visual [of now] by (simp_all add: minVisualMonths_def MIN_ITEM_HEIGHT_def)

lemma ex_pair_sorted: "Array_sort (byStartDate now) [exA, exB] = [exA, exB]"
  by (simp add: byStartDate_def ex_parse js_gt_def calendar_defs)

lemma ex_pair_itemBounds:
  "itemBoundsOf now [exA, exB] (Date 2023 0 1 0) (minVisualMonths 16) =
     [\<lparr>b_id = ''a'', b_start = Num 0, b_end = Num 5, b_column = 0\<rparr>,
      \<lparr>b_id = ''b'', b_start = Num 2, b_end = Num 8, b_column = 1\<rparr>]"
  unfolding itemBoundsOf_def ex_pair_sorted
  by (simp add: firstPass_def placeItem_def ex_pair_visual ex_fields Let_def)

lemma ex_pair_layout:
  "itemLayouts (Date 2023 3 15 0) [exA, exB] 16 (item_id exA) =
     Some \<lparr>column = 0, localColumnCount = 2, localColumnOffset = 0\<rparr>"
  "itemLayouts (Date 2023 3 15 0) [exA, exB] 16 (item_id exB) =
     Some \<lparr>column = 1, localColumnCount = 2, localColumnOffset = 1\<rparr>"
  by (simp_all add: itemLayouts_def ex_pair_bounds assignColumnsWithLayout_eq ex_pair_itemBounds
      ex_fields secondPass_def layoutOf_def overlapsBounds_def js_gt_def Let_def)

lemma ex_pair_overlaps:
  "overlaps now (Date 2023 0 1 0) (minVisualMonths 16) exA exA"
  "overlaps now (Date 2023 0 1 0) (minVisualMonths 16) exA exB"
  "overlaps now (Date 2023 0 1 0) (minVisualMonths 16) exB exA"
  "overlaps now (Date 2023 0 1 0) (minVisualMonths 16) exB exB"
  by (simp_all add: overlaps_def ex_pair_visual js_gt_def)

lemma ex_pair_cluster:
  "overlapCluster (Date 2023 3 15 0) (tb_minDate (timelineBounds (Date 2023 3 15 0) [exA, exB]))
     (minVisualMonths 16) [exA, exB] {exA, exB}"
proof -
  let ?R = "{(x, y). x \<in> set [exA, exB] \<and> y \<in> set [exA, exB] \<and>
      overlaps (Date 2023 3 15 0) (Date 2023 0 1 0) (minVisualMonths 16) x y}"
  have "(a, b) \<in> ?R" if "a \<in> {exA, exB}" "b \<in> {exA, exB}" for a b
    using that ex_pair_overlaps [of "Date 2023 3 15 0"] by auto
  then have "(a, b) \<in> ?R\<^sup>+" if "a \<in> {exA, exB}" "b \<in> {exA, exB}" for a b
    using that by (intro r_into_trancl) blast
  then show ?thesis
    unfolding overlapCluster_def ex_pair_bounds by auto
qed

text \<open>
  C3. Take the layouts the component computes for a list of entries with distinct
  ids, at a proper moment and a positive scale, and an overlap cluster \<open>S\<close> of the
  list whose members occupy as many distinct columns as the cluster has members,
  \<open>N\<close>. Then the values of \<open>localColumnOffset\<close> of the members are pairwise
  distinct, they are exactly \<open>0, \<dots>, N - 1\<close>, and their sum is \<open>0 + 1 + \<dots> + (N - 1)\<close>.
\<close>

theorem cluster_offsets_are_ranks:
  assumes "properDate now" and "0 < ppm" and "distinct (map item_id items)"
    and "overlapCluster now (tb_minDate (timelineBounds now items)) (minVisualMonths ppm) items S"
    and "card ((\<lambda>a. column (the (itemLayouts now items ppm (item_id a)))) ` S) = card S"
  shows "(\<lambda>a. localColumnOffset (the (itemLayouts now items ppm (item_id a)))) ` S
           = int ` {0..<card S} \<and>
         inj_on (\<lambda>a. localColumnOffset (the (itemLayouts now items ppm (item_id a)))) S \<and>
         (\<Sum>a \<in> S. localColumnOffset (the (itemLayouts now items ppm (item_id a))))
           = (\<Sum>i < card S. int i)"
proof -
  from assms(4) have "S \<noteq> {}" "S \<subseteq> set items" by (simp_all add: overlapCluster_def)
  then have ne: "items \<noteq> []" by auto
  from minDate_valid_or_not [OF ne, of now] show ?thesis
  proof
    assume "tb_minDate (timelineBounds now items) = InvalidDate"
    with assms(4) no_cluster_without_minDate show ?thesis by metis
  next
    assume v: "tb_minDate (timelineBounds now items) \<noteq> InvalidDate \<and>
      (\<forall>e \<in> set items. parseDate now (startDate e) \<noteq> InvalidDate \<and>
                  parseDateForBounds now (endDate e) \<noteq> InvalidDate)"
    have m: "minVisualMonths ppm \<noteq> NaN" by (simp add: minVisualMonths_def)
    from cluster_ranks_valid [OF assms(3,1) conjunct2 [OF v] conjunct1 [OF v] m assms(4)] assms(5)
    show ?thesis unfolding itemLayouts_def by blast
  qed
qed

theorem cluster_offsets_are_ranks_witness:
  "properDate (Date 2023 3 15 0) \<and> (0::rat) < 16 \<and> distinct (map item_id [exA, exB]) \<and>
   overlapCluster (Date 2023 3 15 0) (tb_minDate (timelineBounds (Date 2023 3 15 0) [exA, exB]))
     (minVisualMonths 16) [exA, exB] {exA, exB} \<and>
   card ((\<lambda>a. column (the (itemLayouts (Date 2023 3 15 0) [exA, exB] 16 (item_id a)))) ` {exA, exB})
     = card {exA, exB} \<and>
   (\<lambda>a. localColumnOffset (the (itemLayouts (Date 2023 3 15 0) [exA, exB] 16 (item_id a)))) ` {exA, exB}
     = int ` {0..<card {exA, exB}} \<and>
   localColumnOffset (the (itemLayouts (Date 2023 3 15 0) [exA, exB] 16 (item_id exA))) = 0 \<and>
   localColumnOffset (the (itemLayouts (Date 2023 3 15 0) [exA, exB] 16 (item_id exB))) = 1"
proof -
  have 1: "(0::rat) < 16" by simp
  have 2: "distinct (map item_id [exA, exB])" by (simp add: ex_fields)
  have 3: "card ((\<lambda>a. column (the (itemLayouts (Date 2023 3 15 0) [exA, exB] 16 (item_id a)))) `
      {exA, exB}) = card {exA, exB}"
    using ex_pair_distinct by (simp add: ex_pair_layout)
  note main = cluster_offsets_are_ranks [OF april_15_proper 1 2 ex_pair_cluster 3]
  from conjunct1 [OF main] april_15_proper 1 2 ex_pair_cluster 3 ex_pair_layout
  show ?thesis by simp
qed

end
